theory Spec2Isabelle
  imports Main
begin

section \<open>Data model of CSPValidator.py\<close>

text \<open>
  The plugin's own classes are \<^verbatim>\<open>CSPRule\<close> (pattern, message, optional setting
  name), \<^verbatim>\<open>CSPError\<close> (region, message) and \<^verbatim>\<open>CSPValidator\<close> (the rule list and
  \<^verbatim>\<open>validate_contents\<close>). Regions, views and their settings belong to the host
  editor; they are modelled below as far as \<^verbatim>\<open>validate_contents\<close> reads them.
\<close>

record Region =
  rbegin :: int
  rend :: int

record CSPRule =
  rule :: string
  message :: string
  setting :: "string option"

record CSPError =
  region :: Region
  message :: string

text \<open>
  A settings value is what the host's JSON settings can hold. Python's \<^verbatim>\<open>x == 1\<close>
  is true for the integer 1 and for \<^verbatim>\<open>True\<close>, and for nothing else that is modelled
  here; an absent key reads as \<^verbatim>\<open>None\<close>.
\<close>

datatype setting_value = SNone | SBool bool | SInt int | SStr string

fun eq_one :: "setting_value \<Rightarrow> bool" where
  "eq_one (SInt n) = (n = 1)"
| "eq_one (SBool t) = t"
| "eq_one SNone = False"
| "eq_one (SStr s) = False"

record View =
  contents :: string
  view_settings :: "string \<rightharpoonup> setting_value"
  view_regions :: "string \<rightharpoonup> Region list"
  view_status :: "string \<rightharpoonup> string"

text \<open>
  Modelled from the spec: \<^verbatim>\<open>view.settings().get(key)\<close> is the host's lookup of a
  setting. A name the settings do not hold reads as \<^verbatim>\<open>None\<close> (absent means not
  enabled); nothing is raised.
\<close>

definition settings_get :: "View \<Rightarrow> string \<Rightarrow> setting_value" where
  "settings_get view key = (case view_settings view key of None \<Rightarrow> SNone | Some v \<Rightarrow> v)"

section \<open>The host's regular-expression search\<close>

text \<open>
  Modelled from the spec: \<^verbatim>\<open>view.find_all(pattern, flags)\<close> is the host editor's
  search and no part of the plugin. The spec asks of it all non-overlapping matches of
  the pattern, case-insensitive, each with its exact start and end offset, and classes
  that include the newline in rule 3. The plugin's patterns are regular expressions in
  Perl syntax, so the search is modelled as a backtracking matcher over the parsed
  pattern, tried at each position of the text from left to right. Characters are the
  8-bit ones of \<^typ>\<open>string\<close>; case is folded for the letters A to Z; the whitespace
  class holds space, tab, line feed, vertical tab, form feed and carriage return; the
  dot leaves out line feed, form feed and carriage return unless the pattern sets the
  flag \<^verbatim>\<open>s\<close>.
\<close>

subsection \<open>Characters\<close>

definition to_lower :: "char \<Rightarrow> char" where
  "to_lower c = (let n = (of_char c :: nat) in if 65 \<le> n \<and> n \<le> 90 then char_of (n + 32) else c)"

definition is_space :: "char \<Rightarrow> bool" where
  "is_space c = (c \<in> set [CHR 0x20, CHR 0x09, CHR 0x0A, CHR 0x0B, CHR 0x0C, CHR 0x0D])"

definition is_newline :: "char \<Rightarrow> bool" where
  "is_newline c = (c \<in> set [CHR 0x0A, CHR 0x0C, CHR 0x0D])"

subsection \<open>Abstract syntax\<close>

datatype citem = IChar char | ISpace

datatype cset =
    CChar char
  | CDot bool
  | CSpace
  | CSet bool "citem list"

datatype regex =
    Epsilon
  | Atom cset
  | Seq regex regex
  | Alt regex regex
  | Star bool regex

fun item_accepts :: "bool \<Rightarrow> citem \<Rightarrow> char \<Rightarrow> bool" where
  "item_accepts icase (IChar d) c = (if icase then to_lower c = to_lower d else c = d)"
| "item_accepts icase ISpace c = is_space c"

fun accepts :: "bool \<Rightarrow> cset \<Rightarrow> char \<Rightarrow> bool" where
  "accepts icase (CChar d) c = (if icase then to_lower c = to_lower d else c = d)"
| "accepts icase (CDot dotall) c = (dotall \<or> \<not> is_newline c)"
| "accepts icase CSpace c = is_space c"
| "accepts icase (CSet negated items) c = (list_ex (\<lambda>i. item_accepts icase i c) items \<noteq> negated)"

subsection \<open>Backtracking matcher\<close>

text \<open>
  \<open>match_re icase r s k\<close> matches \<open>r\<close> at the start of \<open>s\<close> and hands the rest of
  \<open>s\<close> to the continuation \<open>k\<close>; when the continuation fails, the matcher backtracks
  to its next choice, in the order of a Perl-style matcher: the left alternative first,
  a greedy star one more repetition before stopping, a lazy star stopping before one
  more repetition. A repetition that consumes nothing is not repeated. The result is
  that of the first path on which the continuation succeeds. The number \<open>n\<close> in
  \<open>star\<close> bounds the repetitions that are left; each one consumes a character, so
  the length of the text is enough (\<open>star_fuel\<close> below).
\<close>

fun star :: "bool \<Rightarrow> (string \<Rightarrow> (string \<Rightarrow> 'a option) \<Rightarrow> 'a option) \<Rightarrow> nat \<Rightarrow> string \<Rightarrow>
    (string \<Rightarrow> 'a option) \<Rightarrow> 'a option" where
  "star greedy f 0 s k = k s"
| "star greedy f (Suc n) s k =
     (if greedy then
        (case f s (\<lambda>s'. if length s' < length s then star greedy f n s' k else None) of
           Some x \<Rightarrow> Some x
         | None \<Rightarrow> k s)
      else
        (case k s of
           Some x \<Rightarrow> Some x
         | None \<Rightarrow> f s (\<lambda>s'. if length s' < length s then star greedy f n s' k else None)))"

fun match_re :: "bool \<Rightarrow> regex \<Rightarrow> string \<Rightarrow> (string \<Rightarrow> 'a option) \<Rightarrow> 'a option" where
  "match_re icase Epsilon s k = k s"
| "match_re icase (Atom cs) s k =
     (case s of [] \<Rightarrow> None | c # s' \<Rightarrow> if accepts icase cs c then k s' else None)"
| "match_re icase (Seq r1 r2) s k = match_re icase r1 s (\<lambda>s'. match_re icase r2 s' k)"
| "match_re icase (Alt r1 r2) s k =
     (case match_re icase r1 s k of Some x \<Rightarrow> Some x | None \<Rightarrow> match_re icase r2 s k)"
| "match_re icase (Star greedy r) s k =
     star greedy (\<lambda>t k'. match_re icase r t k') (length s) s k"

text \<open>The length of the match found at the start of \<open>s\<close>, if there is one.\<close>

definition match_here :: "bool \<Rightarrow> regex \<Rightarrow> string \<Rightarrow> nat option" where
  "match_here icase r s = match_re icase r s (\<lambda>s'. Some (length s - length s'))"

subsection \<open>Concrete syntax\<close>

text \<open>
  The patterns of the rule list are strings in Perl syntax. The parser reads the part
  of that syntax the rules use: literals, \<^verbatim>\<open>.\<close>, escapes of punctuation, the
  whitespace class, bracket sets of single characters, groups (capturing or not, which
  makes no difference to the region found), alternation, the quantifiers
  \<^verbatim>\<open>*\<close>, \<^verbatim>\<open>+\<close>, \<^verbatim>\<open>?\<close> and their lazy forms, and the inline flags
  \<^verbatim>\<open>m\<close> and \<^verbatim>\<open>s\<close>. Anything else is refused (\<open>None\<close>).
\<close>

abbreviation bs :: char where "bs \<equiv> CHR 0x5C"

datatype quant = QStar | QPlus | QOpt

fun apply_quant :: "quant \<Rightarrow> bool \<Rightarrow> regex \<Rightarrow> regex" where
  "apply_quant QStar greedy r = Star greedy r"
| "apply_quant QPlus greedy r = Seq r (Star greedy r)"
| "apply_quant QOpt greedy r = (if greedy then Alt r Epsilon else Alt Epsilon r)"

datatype pmode =
    Normal
  | Escape
  | Pending quant
  | GroupOpen
  | GroupQ
  | GroupFlags
  | ClassOpen
  | Class bool "citem list"
  | ClassEscape bool "citem list"

type_synonym frame = "regex list \<times> regex list \<times> bool"

datatype pstate = PState pmode "frame list" "regex list" "regex list" bool

definition seq_of :: "regex list \<Rightarrow> regex" where
  "seq_of cur = foldl (\<lambda>acc r. Seq r acc) Epsilon cur"

definition alt_of :: "regex list \<Rightarrow> regex list \<Rightarrow> regex" where
  "alt_of alts cur = foldl (\<lambda>acc r. Alt r acc) (seq_of cur) alts"

definition is_alnum :: "char \<Rightarrow> bool" where
  "is_alnum c = (let n = (of_char c :: nat) in
     (48 \<le> n \<and> n \<le> 57) \<or> (65 \<le> n \<and> n \<le> 90) \<or> (97 \<le> n \<and> n \<le> 122))"

fun normal_char :: "frame list \<Rightarrow> regex list \<Rightarrow> regex list \<Rightarrow> bool \<Rightarrow> char \<Rightarrow> pstate option" where
  "normal_char stack alts cur dotall c =
    (if c = bs then Some (PState Escape stack alts cur dotall)
     else if c = CHR ''.'' then Some (PState Normal stack alts (Atom (CDot dotall) # cur) dotall)
     else if c = CHR ''*'' then (if cur = [] then None else Some (PState (Pending QStar) stack alts cur dotall))
     else if c = CHR ''+'' then (if cur = [] then None else Some (PState (Pending QPlus) stack alts cur dotall))
     else if c = CHR ''?'' then (if cur = [] then None else Some (PState (Pending QOpt) stack alts cur dotall))
     else if c = CHR ''('' then Some (PState GroupOpen stack alts cur dotall)
     else if c = CHR '')'' then
       (case stack of
          [] \<Rightarrow> None
        | (palts, pcur, pdotall) # rest \<Rightarrow> Some (PState Normal rest palts (alt_of alts cur # pcur) pdotall))
     else if c = CHR ''|'' then Some (PState Normal stack (seq_of cur # alts) [] dotall)
     else if c = CHR ''['' then Some (PState ClassOpen stack alts cur dotall)
     else if c \<in> set [CHR '']'', CHR ''{'', CHR ''}'', CHR ''^'', CHR ''$''] then None
     else Some (PState Normal stack alts (Atom (CChar c) # cur) dotall))"

fun class_char :: "frame list \<Rightarrow> regex list \<Rightarrow> regex list \<Rightarrow> bool \<Rightarrow> bool \<Rightarrow> citem list \<Rightarrow> char \<Rightarrow> pstate option" where
  "class_char stack alts cur dotall negated items c =
    (if c = bs then Some (PState (ClassEscape negated items) stack alts cur dotall)
     else if c = CHR '']'' then
       (if items = [] then None
        else Some (PState Normal stack alts (Atom (CSet negated (rev items)) # cur) dotall))
     else if c = CHR ''['' \<or> c = CHR ''-'' then None
     else Some (PState (Class negated (IChar c # items)) stack alts cur dotall))"

fun step :: "pstate \<Rightarrow> char \<Rightarrow> pstate option" where
  "step (PState Normal stack alts cur dotall) c = normal_char stack alts cur dotall c"
| "step (PState Escape stack alts cur dotall) c =
    (if c = CHR ''s'' then Some (PState Normal stack alts (Atom CSpace # cur) dotall)
     else if is_alnum c then None
     else Some (PState Normal stack alts (Atom (CChar c) # cur) dotall))"
| "step (PState (Pending q) stack alts cur dotall) c =
    (case cur of
       [] \<Rightarrow> None
     | r # rs \<Rightarrow>
        if c = CHR ''?'' then Some (PState Normal stack alts (apply_quant q False r # rs) dotall)
        else if c = CHR ''*'' \<or> c = CHR ''+'' then None
        else normal_char stack alts (apply_quant q True r # rs) dotall c)"
| "step (PState GroupOpen stack alts cur dotall) c =
    (if c = CHR ''?'' then Some (PState GroupQ stack alts cur dotall)
     else normal_char ((alts, cur, dotall) # stack) [] [] dotall c)"
| "step (PState GroupQ stack alts cur dotall) c =
    (if c = CHR '':'' then Some (PState Normal ((alts, cur, dotall) # stack) [] [] dotall)
     else if c = CHR ''m'' then Some (PState GroupFlags stack alts cur dotall)
     else if c = CHR ''s'' then Some (PState GroupFlags stack alts cur True)
     else None)"
| "step (PState GroupFlags stack alts cur dotall) c =
    (if c = CHR ''m'' then Some (PState GroupFlags stack alts cur dotall)
     else if c = CHR ''s'' then Some (PState GroupFlags stack alts cur True)
     else if c = CHR '')'' then Some (PState Normal stack alts cur dotall)
     else None)"
| "step (PState ClassOpen stack alts cur dotall) c =
    (if c = CHR ''^'' then Some (PState (Class True []) stack alts cur dotall)
     else class_char stack alts cur dotall False [] c)"
| "step (PState (Class negated items) stack alts cur dotall) c =
    class_char stack alts cur dotall negated items c"
| "step (PState (ClassEscape negated items) stack alts cur dotall) c =
    (if c = CHR ''s'' then Some (PState (Class negated (ISpace # items)) stack alts cur dotall)
     else if is_alnum c then None
     else Some (PState (Class negated (IChar c # items)) stack alts cur dotall))"

fun finish :: "pstate \<Rightarrow> regex option" where
  "finish (PState Normal [] alts cur dotall) = Some (alt_of alts cur)"
| "finish (PState (Pending q) [] alts (r # rs) dotall) = Some (alt_of alts (apply_quant q True r # rs))"
| "finish _ = None"

fun parse_from :: "pstate \<Rightarrow> string \<Rightarrow> regex option" where
  "parse_from st [] = finish st"
| "parse_from st (c # cs) = (case step st c of None \<Rightarrow> None | Some st' \<Rightarrow> parse_from st' cs)"

definition parse_regex :: "string \<Rightarrow> regex option" where
  "parse_regex p = parse_from (PState Normal [] [] [] False) p"

definition literal_regex :: "string \<Rightarrow> regex" where
  "literal_regex p = foldr (\<lambda>c r. Seq (Atom (CChar c)) r) p Epsilon"

subsection \<open>Searching a text\<close>

text \<open>
  The flags of the host's search are bits of an integer:
  \<^verbatim>\<open>sublime.LITERAL\<close> is 1 and \<^verbatim>\<open>sublime.IGNORECASE\<close> is 2.
\<close>

definition LITERAL :: nat where "LITERAL = 1"

definition IGNORECASE :: nat where "IGNORECASE = 2"

definition flag_literal :: "nat \<Rightarrow> bool" where
  "flag_literal flags = odd flags"

definition flag_icase :: "nat \<Rightarrow> bool" where
  "flag_icase flags = odd (flags div 2)"

definition compile :: "string \<Rightarrow> nat \<Rightarrow> regex option" where
  "compile p flags = (if flag_literal flags then Some (literal_regex p) else parse_regex p)"

text \<open>
  \<open>find_from\<close> is the search loop: at each position it takes the first match the
  backtracking matcher finds there, reports it and goes on behind it (one character
  further after an empty match), or moves one character on when nothing matches.
  The matches it reports are the leftmost non-overlapping ones.
\<close>

function find_from :: "bool \<Rightarrow> regex \<Rightarrow> nat \<Rightarrow> string \<Rightarrow> (nat \<times> nat) list" where
  "find_from icase r pos s =
    (case match_here icase r s of
       None \<Rightarrow> (case s of [] \<Rightarrow> [] | c # s' \<Rightarrow> find_from icase r (pos + 1) s')
     | Some n \<Rightarrow>
        (pos, pos + n) #
        (if n = 0 then (case s of [] \<Rightarrow> [] | c # s' \<Rightarrow> find_from icase r (pos + 1) s')
         else find_from icase r (pos + n) (drop n s)))"
  by pat_completeness auto

lemma star_rest:
  assumes "\<And>t k' y. f t k' = Some y \<Longrightarrow> \<exists>u. length u \<le> length t \<and> k' u = Some y"
  shows "star g f n s k = Some x \<Longrightarrow> \<exists>u. length u \<le> length s \<and> k u = Some x"
proof (induction n arbitrary: s)
  case 0
  then show ?case by auto
next
  case (Suc n)
  show ?case
  proof (cases "k s = Some x")
    case True
    then show ?thesis by auto
  next
    case False
    with Suc.prems
    have "f s (\<lambda>s'. if length s' < length s then star g f n s' k else None) = Some x"
      by (auto split: if_splits option.splits)
    from assms[OF this] obtain u where u: "length u < length s" "star g f n u k = Some x"
      by (auto split: if_splits)
    from Suc.IH[OF u(2)] u(1) show ?thesis
      by (meson le_trans less_imp_le_nat)
  qed
qed

lemma match_re_rest:
  "match_re icase r s k = Some x \<Longrightarrow> \<exists>u. length u \<le> length s \<and> k u = Some x"
proof (induction r arbitrary: s k x)
  case Epsilon
  then show ?case by auto
next
  case (Atom cs)
  then show ?case by (cases s) (auto split: if_splits intro: le_SucI)
next
  case (Seq r1 r2)
  from Seq.prems have "match_re icase r1 s (\<lambda>s'. match_re icase r2 s' k) = Some x"
    by simp
  from Seq.IH(1)[OF this] obtain u where u: "length u \<le> length s" "match_re icase r2 u k = Some x"
    by auto
  from Seq.IH(2)[OF u(2)] u(1) show ?case
    by (meson le_trans)
next
  case (Alt r1 r2)
  then show ?case by (auto split: option.splits)
next
  case (Star g r)
  from Star.prems have "star g (\<lambda>t k'. match_re icase r t k') (length s) s k = Some x"
    by simp
  then show ?case
    by (rule star_rest[rotated]) (rule Star.IH)
qed

lemma match_here_le: "match_here icase r s = Some n \<Longrightarrow> n \<le> length s"
  unfolding match_here_def by (drule match_re_rest) auto

lemma match_re_fails: "match_re icase r s (\<lambda>u. None) = None"
proof (cases "match_re icase r s (\<lambda>u. None :: 'a option)")
  case None
  then show ?thesis .
next
  case (Some x)
  from match_re_rest[OF this] show ?thesis by simp
qed

lemma star_fuel_step:
  "length s \<le> n \<Longrightarrow>
   star g (\<lambda>t h. match_re icase r t h) (Suc n) s k = star g (\<lambda>t h. match_re icase r t h) n s k"
proof (induction n arbitrary: s)
  case 0
  then show ?case by (simp add: match_re_fails split: option.splits)
next
  case (Suc n)
  have "(\<lambda>s'. if length s' < length s then star g (\<lambda>t h. match_re icase r t h) (Suc n) s' k else None) =
        (\<lambda>s'. if length s' < length s then star g (\<lambda>t h. match_re icase r t h) n s' k else None)"
  proof
    fix s' :: string
    show "(if length s' < length s then star g (\<lambda>t h. match_re icase r t h) (Suc n) s' k else None) =
          (if length s' < length s then star g (\<lambda>t h. match_re icase r t h) n s' k else None)"
      using Suc.IH[of s'] Suc.prems by simp
  qed
  then show ?case by (simp cong: option.case_cong)
qed

lemma star_fuel:
  "length s \<le> n \<Longrightarrow>
   star g (\<lambda>t h. match_re icase r t h) n s k = match_re icase (Star g r) s k"
proof (induction "n - length s" arbitrary: n)
  case 0
  then show ?case by simp
next
  case (Suc d)
  then obtain m where m: "n = Suc m" "length s \<le> m" "d = m - length s"
    by (cases n) auto
  have "star g (\<lambda>t h. match_re icase r t h) n s k = star g (\<lambda>t h. match_re icase r t h) m s k"
    unfolding m(1) by (rule star_fuel_step[OF m(2)])
  also have "\<dots> = match_re icase (Star g r) s k"
    by (rule Suc.hyps(1)[OF m(3) m(2)])
  finally show ?case .
qed

termination find_from
  by (relation "measure (\<lambda>(icase, r, pos, s). length s)") (auto dest: match_here_le)

text \<open>
  Modelled from the spec: \<^verbatim>\<open>view.find_all(pattern, flags)\<close> gives the regions of all
  matches of the pattern in the view's text, from first to last. A pattern the parser
  refuses finds nothing.
\<close>

definition find_all :: "View \<Rightarrow> string \<Rightarrow> nat \<Rightarrow> Region list" where
  "find_all view pattern flags =
    (case compile pattern flags of
       None \<Rightarrow> []
     | Some r \<Rightarrow>
        map (\<lambda>(i, j). \<lparr>rbegin = int i, rend = int j\<rparr>)
          (find_from (flag_icase flags) r 0 (contents view)))"

section \<open>The validator\<close>

record CSPValidator =
  rules :: "CSPRule list"

definition rule1 :: CSPRule where
  \<open>rule1 = \<lparr>
     rule = ''<(img|script).*?'' @ bs # ''ssrc'' @ bs # ''s?='' @ bs # ''s?["']+http[^"']*["']?'',
     message = ''External resources are not allowed'',
     setting = Some ''csp_chromeapps''\<rparr>\<close>

definition rule2 :: CSPRule where
  \<open>rule2 = \<lparr>
     rule = ''<link.+?href'' @ bs # ''s?='' @ bs # ''s?["']+http[^"']*["']?'',
     message = ''External resources are not allowed'',
     setting = Some ''csp_chromeapps''\<rparr>\<close>

definition rule3 :: CSPRule where
  \<open>rule3 = \<lparr>
     rule = ''(?ms)<script[^>]*>[^<]+?'' @
            ''[^'' @ bs # ''s<]+?'' @
            ''.*?</script>'',
     message = ''Inline scripts are not allowed'',
     setting = None\<rparr>\<close>

definition rule4 :: CSPRule where
  \<open>rule4 = \<lparr>
     rule = ''eval|new Function'',
     message = ''Code creation from strings, e.g. eval / new Function not allowed'',
     setting = None\<rparr>\<close>

definition rule5 :: CSPRule where
  \<open>rule5 = \<lparr>
     rule = ''setTimeout'' @ bs # ''s?'' @ bs # ''("[^"]*"'',
     message = ''Code creation from strings, e.g. setTimeout("string") is not allowed'',
     setting = None\<rparr>\<close>

definition rule6 :: CSPRule where
  \<open>rule6 = \<lparr>
     rule = ''<.*?'' @ bs # ''son[^>]*?>'',
     message = ''Event handlers should be added from an external src file'',
     setting = None\<rparr>\<close>

definition rule7 :: CSPRule where
  \<open>rule7 = \<lparr>
     rule = ''url'' @ bs # ''("?(?:https?:)?//[^'' @ bs # '')]*'' @ bs # '')'',
     message = ''External resources are not allowed'',
     setting = Some ''csp_chromeapps''\<rparr>\<close>

definition rule8 :: CSPRule where
  \<open>rule8 = \<lparr>
     rule = ''<.*?href.*?javascript:.*?>'',
     message = ''Inline JavaScript calls are not allowed'',
     setting = Some ''csp_chromeapps''\<rparr>\<close>

definition validator :: CSPValidator where
  "validator = \<lparr>rules = [rule1, rule2, rule3, rule4, rule5, rule6, rule7, rule8]\<rparr>"

text \<open>
  \<^verbatim>\<open>validate_contents\<close>: the outer loop runs over the rules, the inner loop appends one
  error per match; \<open>errors\<close> is the list both loops extend.
\<close>

definition rule_applies :: "View \<Rightarrow> CSPRule \<Rightarrow> bool" where
  "rule_applies view r =
    (case setting r of None \<Rightarrow> True | Some key \<Rightarrow> eq_one (settings_get view key))"

definition append_errors :: "CSPRule \<Rightarrow> CSPError list \<Rightarrow> Region list \<Rightarrow> CSPError list" where
  "append_errors r errors ms =
    foldl (\<lambda>errors m. errors @ [\<lparr>region = m, message = CSPRule.message r\<rparr>]) errors ms"

definition validate_rule :: "View \<Rightarrow> CSPError list \<Rightarrow> CSPRule \<Rightarrow> CSPError list" where
  "validate_rule view errors r =
    (if rule_applies view r then append_errors r errors (find_all view (rule r) IGNORECASE)
     else errors)"

definition validate_contents :: "CSPValidator \<Rightarrow> View \<Rightarrow> CSPError list" where
  "validate_contents self view = foldl (validate_rule view) [] (rules self)"

text \<open>
  The same function with the objects it can reach threaded through the call: the rule
  list of the class (\<^verbatim>\<open>self.rules\<close>) and the view. Python hands both over by
  reference, so a call could change them; here every step takes the state and hands it
  back. The loop reads \<^verbatim>\<open>self.rules\<close> by index, as Python's list iterator does, so
  that a change of the list inside the loop would be seen by it.

  Modelled from the spec: \<^verbatim>\<open>view.settings().get\<close> and \<^verbatim>\<open>view.find_all\<close> are queries
  of the host (the flag state and the text are read-only input); they hand the state
  back as it was.
\<close>

record program_state =
  rules_attr :: "CSPRule list"
  the_view :: View

definition view_settings_get :: "string \<Rightarrow> program_state \<Rightarrow> setting_value \<times> program_state" where
  "view_settings_get key \<sigma> = (settings_get (the_view \<sigma>) key, \<sigma>)"

definition view_find_all :: "string \<Rightarrow> nat \<Rightarrow> program_state \<Rightarrow> Region list \<times> program_state" where
  "view_find_all pattern flags \<sigma> = (find_all (the_view \<sigma>) pattern flags, \<sigma>)"

definition search_and_append :: "CSPRule \<Rightarrow> CSPError list \<Rightarrow> program_state \<Rightarrow> CSPError list \<times> program_state" where
  "search_and_append r errors \<sigma> =
    (case view_find_all (rule r) IGNORECASE \<sigma> of
       (ms, \<sigma>') \<Rightarrow> (foldl (\<lambda>errors m. errors @ [\<lparr>region = m, message = CSPRule.message r\<rparr>]) errors ms, \<sigma>'))"

definition run_rule :: "CSPRule \<Rightarrow> CSPError list \<Rightarrow> program_state \<Rightarrow> CSPError list \<times> program_state" where
  "run_rule r errors \<sigma> =
    (case setting r of
       None \<Rightarrow> search_and_append r errors \<sigma>
     | Some key \<Rightarrow>
        (case view_settings_get key \<sigma> of
           (v, \<sigma>') \<Rightarrow> if eq_one v then search_and_append r errors \<sigma>' else (errors, \<sigma>')))"

lemma run_rule_eq:
  "run_rule r errors \<sigma> = (validate_rule (the_view \<sigma>) errors r, \<sigma>)"
  by (simp add: run_rule_def search_and_append_def view_find_all_def view_settings_get_def
      validate_rule_def rule_applies_def append_errors_def split: option.splits)

function run_rules :: "nat \<Rightarrow> CSPError list \<Rightarrow> program_state \<Rightarrow> CSPError list \<times> program_state" where
  "run_rules i errors \<sigma> =
    (if i < length (rules_attr \<sigma>) then
       (case run_rule (rules_attr \<sigma> ! i) errors \<sigma> of
          (errors', \<sigma>') \<Rightarrow> run_rules (Suc i) errors' \<sigma>')
     else (errors, \<sigma>))"
  by pat_completeness auto
termination
  by (relation "measure (\<lambda>(i, errors, \<sigma>). length (rules_attr \<sigma>) - i)")
    (auto simp: run_rule_eq)

definition validate_contents_state :: "program_state \<Rightarrow> CSPError list \<times> program_state" where
  "validate_contents_state \<sigma> = run_rules 0 [] \<sigma>"

section \<open>Notions used in the statements\<close>

text \<open>
  What follows is not part of the program: the errors one rule contributes, the
  state of the setting that gates rules 1, 2, 7 and 8, the syntax trees the eight
  patterns parse to, what it means for a pattern to occur or for a word to stand at
  the start of a text up to case, and the texts and views of the examples.
\<close>

definition rule_errors :: "View \<Rightarrow> CSPRule \<Rightarrow> CSPError list" where
  "rule_errors view r =
    map (\<lambda>m. \<lparr>region = m, message = CSPRule.message r\<rparr>) (find_all view (rule r) IGNORECASE)"

definition seqs :: "regex list \<Rightarrow> regex" where
  "seqs rs = foldr Seq rs Epsilon"

definition chars :: "string \<Rightarrow> regex list" where
  "chars w = map (\<lambda>c. Atom (CChar c)) w"

definition one_of :: "string \<Rightarrow> regex" where
  "one_of w = Atom (CSet False (map IChar w))"

definition none_of :: "string \<Rightarrow> regex" where
  "none_of w = Atom (CSet True (map IChar w))"

definition opt :: "regex \<Rightarrow> regex" where
  "opt r = Alt r Epsilon"

definition plus :: "bool \<Rightarrow> regex \<Rightarrow> regex" where
  "plus greedy r = Seq r (Star greedy r)"

definition dot :: regex where
  "dot = Atom (CDot False)"

definition quotes :: string where
  "quotes = [CHR 0x22, CHR 0x27]"

definition rx1 :: regex where
  "rx1 = seqs (chars ''<'' @ [Alt (seqs (chars ''img'')) (seqs (chars ''script'')), Star False dot,
     Atom CSpace] @ chars ''src'' @ [opt (Atom CSpace)] @ chars ''='' @ [opt (Atom CSpace),
     plus True (one_of quotes)] @ chars ''http'' @ [Star True (none_of quotes), opt (one_of quotes)])"

definition rx2 :: regex where
  "rx2 = seqs (chars ''<link'' @ [plus False dot] @ chars ''href'' @ [opt (Atom CSpace)] @
     chars ''='' @ [opt (Atom CSpace), plus True (one_of quotes)] @ chars ''http'' @
     [Star True (none_of quotes), opt (one_of quotes)])"

definition rx3 :: regex where
  "rx3 = seqs (chars ''<script'' @ [Star True (none_of ''>'')] @ chars ''>'' @
     [plus False (none_of ''<''),
      plus False (Atom (CSet True [ISpace, IChar CHR ''<''])),
      Star False (Atom (CDot True))] @ chars ''</script>'')"

definition rx4 :: regex where
  "rx4 = Alt (seqs (chars ''eval'')) (seqs (chars ''new Function''))"

definition rx5 :: regex where
  "rx5 = seqs (chars ''setTimeout'' @ [opt (Atom CSpace)] @ chars [CHR ''('', CHR 0x22] @
     [Star True (none_of [CHR 0x22])] @ chars [CHR 0x22])"

definition rx6 :: regex where
  "rx6 = seqs (chars ''<'' @ [Star False dot, Atom CSpace] @ chars ''on'' @
     [Star False (none_of ''>'')] @ chars ''>'')"

definition rx7 :: regex where
  "rx7 = seqs (chars ''url('' @
     [opt (Atom (CChar (CHR 0x22))),
      opt (seqs (chars ''http'' @ [opt (Atom (CChar CHR ''s''))] @ chars '':''))] @
     chars ''//'' @ [Star True (none_of '')'')] @ chars '')'')"

definition rx8 :: regex where
  "rx8 = seqs (chars ''<'' @ [Star False dot] @ chars ''href'' @ [Star False dot] @
     chars ''javascript:'' @ [Star False dot] @ chars ''>'')"

definition example_view :: "string \<Rightarrow> setting_value option \<Rightarrow> View" where
  "example_view t flag = \<lparr>contents = t, view_settings = Map.empty(''csp_chromeapps'' := flag),
     view_regions = Map.empty, view_status = Map.empty\<rparr>"

definition error_at :: "nat \<Rightarrow> nat \<Rightarrow> CSPRule \<Rightarrow> CSPError" where
  "error_at i j r = \<lparr>region = \<lparr>rbegin = int i, rend = int j\<rparr>, message = CSPRule.message r\<rparr>"

definition flag_on :: "View \<Rightarrow> bool" where
  "flag_on view = eq_one (settings_get view ''csp_chromeapps'')"

definition handler_view :: View where
  "handler_view = example_view ''<p onclick=eval(1)> eval(2)'' None"

definition handler_view_busy :: View where
  "handler_view_busy = handler_view\<lparr>
     view_regions := [''cspvalidator_errors'' \<mapsto> [\<lparr>rbegin = 0, rend = 19\<rparr>]],
     view_status := [''cspvalidation_error'' \<mapsto> ''Inline scripts are not allowed'']\<rparr>"

definition handler_state :: program_state where
  "handler_state = \<lparr>rules_attr = rules validator, the_view = handler_view\<rparr>"

definition handler_state_busy :: program_state where
  "handler_state_busy = \<lparr>rules_attr = rules validator, the_view = handler_view_busy\<rparr>"

definition occurs :: "View \<Rightarrow> string \<Rightarrow> bool" where
  "occurs view pattern =
    (case compile pattern IGNORECASE of
       None \<Rightarrow> False
     | Some rx \<Rightarrow>
        list_ex (\<lambda>k. match_here True rx (drop k (contents view)) \<noteq> None)
          [0..<Suc (length (contents view))])"

definition plain_view :: View where
  "plain_view = example_view ''<p class=note>Hello, world</p>'' None"

definition inline_script :: string where
  "inline_script = ''<script>'' @ CHR 0x0A # ''  console.log(1);'' @ CHR 0x0A # ''</script>''"

definition external_script :: string where
  \<open>external_script = ''<script src="a.js"></script>''\<close>

definition same_fold :: "string \<Rightarrow> string \<Rightarrow> bool" where
  "same_fold s t = (map to_lower s = map to_lower t)"

definition upper_script :: string where
  \<open>upper_script = ''<SCRIPT SRC="HTTP://x.com/a.js">''\<close>

definition lower_script :: string where
  \<open>lower_script = ''<script src="http://x.com/a.js">''\<close>

definition iprefix :: "string \<Rightarrow> string \<Rightarrow> bool" where
  "iprefix w s = (length w \<le> length s \<and> map to_lower (take (length w) s) = map to_lower w)"

definition agree_at :: "string \<Rightarrow> string \<Rightarrow> nat \<Rightarrow> bool" where
  "agree_at w1 w2 d =
     list_all (\<lambda>j. to_lower (w1 ! (d + j)) = to_lower (w2 ! j)) [0..<min (length w1 - d) (length w2)]"

definition overlaps :: "string \<Rightarrow> string \<Rightarrow> nat list" where
  "overlaps w1 w2 = filter (agree_at w1 w2) [1..<length w1]"

definition retrieval_view :: View where
  "retrieval_view = example_view ''var retrieval = medieval;'' None"

definition two_calls_view :: View where
  \<open>two_calls_view = example_view ''eval(x); new Function("x")'' None\<close>

definition overlap_view :: View where
  \<open>overlap_view = example_view ''new Functionew Function("x");eval(x)'' None\<close>

definition script_tag :: string where
  \<open>script_tag = ''<script src="http://x">''\<close>

definition tag_text :: string where
  \<open>tag_text = ''<p>'' @ ''<script src="http://x">'' @ ''</script>''\<close>

definition tag_view_on :: View where
  "tag_view_on = example_view tag_text (Some (SInt 1))"

definition tag_view_off :: View where
  "tag_view_off = example_view tag_text (Some (SInt 0))"

section \<open>Properties of the search loop\<close>

declare find_from.simps [simp del]

lemma find_from_Nil:
  "find_from icase r pos [] = (case match_here icase r [] of None \<Rightarrow> [] | Some n \<Rightarrow> [(pos, pos + n)])"
  by (subst find_from.simps) (auto split: option.splits dest: match_here_le)

lemma find_from_None:
  "match_here icase r (c # s) = None \<Longrightarrow> find_from icase r pos (c # s) = find_from icase r (Suc pos) s"
  by (subst find_from.simps) simp

lemma find_from_Zero:
  "match_here icase r (c # s) = Some 0 \<Longrightarrow>
   find_from icase r pos (c # s) = (pos, pos) # find_from icase r (Suc pos) s"
  by (subst find_from.simps) simp

lemma find_from_Some:
  "match_here icase r s = Some n \<Longrightarrow> 0 < n \<Longrightarrow>
   find_from icase r pos s = (pos, pos + n) # find_from icase r (pos + n) (drop n s)"
  by (subst find_from.simps) simp

lemma drop_Cons_shift: "Suc p \<le> i \<Longrightarrow> drop (i - p) (c # s) = drop (i - Suc p) s"
proof -
  assume "Suc p \<le> i"
  then have "i - p = Suc (i - Suc p)" by arith
  then show ?thesis by simp
qed

lemma find_from_sound:
  "(i, j) \<in> set (find_from icase r pos s) \<Longrightarrow>
   pos \<le> i \<and> i \<le> pos + length s \<and> i \<le> j \<and> match_here icase r (drop (i - pos) s) = Some (j - i)"
proof (induction icase r pos s rule: find_from.induct)
  case (1 icase r pos s)
  show ?case
  proof (cases "match_here icase r s")
    case None
    show ?thesis
    proof (cases s)
      case Nil
      with None "1.prems" show ?thesis by (simp add: find_from_Nil)
    next
      case (Cons c s')
      with None "1.prems" have "(i, j) \<in> set (find_from icase r (pos + 1) s')"
        by (simp add: find_from_None)
      from "1.IH"(1)[OF None Cons this] Cons show ?thesis
        by (auto simp: drop_Cons_shift)
    qed
  next
    case (Some n)
    show ?thesis
    proof (cases "n = 0")
      case True
      show ?thesis
      proof (cases s)
        case Nil
        with Some True "1.prems" show ?thesis by (auto simp: find_from_Nil)
      next
        case (Cons c s')
        with Some True "1.prems"
        have "(i, j) = (pos, pos) \<or> (i, j) \<in> set (find_from icase r (pos + 1) s')"
          by (auto simp: find_from_Zero)
        then show ?thesis
        proof
          assume "(i, j) = (pos, pos)"
          with Some True show ?thesis by simp
        next
          assume "(i, j) \<in> set (find_from icase r (pos + 1) s')"
          from "1.IH"(2)[OF Some True Cons this] Cons show ?thesis
            by (auto simp: drop_Cons_shift)
        qed
      qed
    next
      case False
      from match_here_le[OF Some] have n: "n \<le> length s" .
      from Some False "1.prems"
      have "(i, j) = (pos, pos + n) \<or> (i, j) \<in> set (find_from icase r (pos + n) (drop n s))"
        by (auto simp: find_from_Some)
      then show ?thesis
      proof
        assume "(i, j) = (pos, pos + n)"
        with Some show ?thesis by simp
      next
        assume "(i, j) \<in> set (find_from icase r (pos + n) (drop n s))"
        from "1.IH"(3)[OF Some False this] n
        have *: "pos + n \<le> i" "i \<le> pos + n + (length s - n)" "i \<le> j"
          "match_here icase r (drop (i - (pos + n)) (drop n s)) = Some (j - i)"
          by auto
        have "i - (pos + n) + n = i - pos" using *(1) by arith
        with * n show ?thesis by (auto simp: add.commute)
      qed
    qed
  qed
qed

lemma find_from_lower:
  "(i, j) \<in> set (find_from icase r pos s) \<Longrightarrow> pos \<le> i"
  by (drule find_from_sound) simp

lemma find_from_sorted:
  "sorted_wrt (\<lambda>(i, j) (i', j'). i < i' \<and> j \<le> i') (find_from icase r pos s)"
proof (induction icase r pos s rule: find_from.induct)
  case (1 icase r pos s)
  show ?case
  proof (cases "match_here icase r s")
    case None
    show ?thesis
    proof (cases s)
      case Nil
      with None show ?thesis by (simp add: find_from_Nil)
    next
      case (Cons c s')
      with None "1.IH"(1) show ?thesis by (simp add: find_from_None)
    qed
  next
    case (Some n)
    show ?thesis
    proof (cases "n = 0")
      case True
      show ?thesis
      proof (cases s)
        case Nil
        with Some show ?thesis by (simp add: find_from_Nil)
      next
        case (Cons c s')
        with Some True "1.IH"(2) show ?thesis
          by (auto simp: find_from_Zero dest: find_from_lower)
      qed
    next
      case False
      with Some "1.IH"(3) show ?thesis
        by (auto simp: find_from_Some dest: find_from_lower)
    qed
  qed
qed

lemma find_from_complete:
  "k \<le> length s \<Longrightarrow> match_here icase r (drop k s) = Some n \<Longrightarrow>
   (pos + k, pos + k + n) \<in> set (find_from icase r pos s) \<or>
   (\<exists>(i, j) \<in> set (find_from icase r pos s). i < pos + k \<and> pos + k < j)"
proof (induction icase r pos s arbitrary: k rule: find_from.induct)
  case (1 icase r pos s)
  show ?case
  proof (cases k)
    case 0
    with "1.prems" have m: "match_here icase r s = Some n" by simp
    show ?thesis
    proof (cases "n = 0")
      case True
      with m 0 show ?thesis by (cases s) (auto simp: find_from_Nil find_from_Zero)
    next
      case False
      with m 0 show ?thesis by (simp add: find_from_Some)
    qed
  next
    case (Suc k')
    with "1.prems" obtain c s' where s: "s = c # s'" by (cases s) auto
    with Suc "1.prems" have k': "k' \<le> length s'" "match_here icase r (drop k' s') = Some n"
      by auto
    show ?thesis
    proof (cases "match_here icase r s")
      case None
      from "1.IH"(1)[OF None s k'] None s Suc show ?thesis
        by (simp add: find_from_None)
    next
      case (Some m)
      show ?thesis
      proof (cases "m = 0")
        case True
        from "1.IH"(2)[OF Some True s k'] Some True s Suc show ?thesis
          by (auto simp: find_from_Zero)
      next
        case False
        show ?thesis
        proof (cases "m \<le> k")
          case True
          have "k - m \<le> length (drop m s)" using "1.prems"(1) by simp
          moreover have "match_here icase r (drop (k - m) (drop m s)) = Some n"
            using "1.prems"(2) True by simp
          ultimately have
            "(pos + m + (k - m), pos + m + (k - m) + n) \<in> set (find_from icase r (pos + m) (drop m s)) \<or>
             (\<exists>(i, j) \<in> set (find_from icase r (pos + m) (drop m s)). i < pos + m + (k - m) \<and> pos + m + (k - m) < j)"
            by (rule "1.IH"(3)[OF Some False])
          moreover have "pos + m + (k - m) = pos + k" using True by simp
          ultimately show ?thesis using Some False
            by (auto simp: find_from_Some)
        next
          case nle: False
          with Some False Suc show ?thesis
            by (auto simp: find_from_Some)
        qed
      qed
    qed
  qed
qed

lemma find_from_nonempty:
  "k \<le> length s \<Longrightarrow> match_here icase r (drop k s) = Some n \<Longrightarrow> find_from icase r pos s \<noteq> []"
  using find_from_complete[of k s icase r n pos] by auto

lemma find_from_no_match:
  "(\<And>k. k \<le> length s \<Longrightarrow> match_here icase r (drop k s) = None) \<Longrightarrow> find_from icase r pos s = []"
proof (cases "find_from icase r pos s")
  case Nil
  then show ?thesis .
next
  case (Cons x xs)
  assume none: "\<And>k. k \<le> length s \<Longrightarrow> match_here icase r (drop k s) = None"
  obtain i j where "x = (i, j)" by (cases x)
  with Cons have "(i, j) \<in> set (find_from icase r pos s)" by simp
  from find_from_sound[OF this]
  have "i - pos \<le> length s" "match_here icase r (drop (i - pos) s) = Some (j - i)"
    by auto
  with none[of "i - pos"] show ?thesis by simp
qed

section \<open>The shape of the result\<close>

lemma append_errors_eq:
  "append_errors r errors ms = errors @ map (\<lambda>m. \<lparr>region = m, message = CSPRule.message r\<rparr>) ms"
  unfolding append_errors_def by (induction ms arbitrary: errors) auto

lemma validate_rule_eq:
  "validate_rule view errors r = errors @ (if rule_applies view r then rule_errors view r else [])"
  by (simp add: validate_rule_def append_errors_eq rule_errors_def)

lemma foldl_validate_rule:
  "foldl (validate_rule view) errors rs =
   errors @ concat (map (rule_errors view) (filter (rule_applies view) rs))"
  by (induction rs arbitrary: errors) (auto simp: validate_rule_eq)

lemma validate_contents_eq:
  "validate_contents self view = concat (map (rule_errors view) (filter (rule_applies view) (rules self)))"
  by (simp add: validate_contents_def foldl_validate_rule)

lemma find_all_sorted:
  "sorted_wrt (\<lambda>m m'. rbegin m < rbegin m' \<and> rend m \<le> rbegin m') (find_all view p flags)"
proof (cases "compile p flags")
  case None
  then show ?thesis by (simp add: find_all_def)
next
  case (Some rx)
  have "sorted_wrt (\<lambda>x y. (case x of (i, j) \<Rightarrow> \<lambda>(i', j'). i < i' \<and> j \<le> i') y)
          (find_from (flag_icase flags) rx 0 (contents view))"
    by (rule find_from_sorted)
  then show ?thesis
    by (simp add: find_all_def Some sorted_wrt_map case_prod_unfold)
qed

lemma find_all_sound:
  assumes "m \<in> set (find_all view p flags)"
  shows "\<exists>rx i j. compile p flags = Some rx \<and> rbegin m = int i \<and> rend m = int j \<and>
           i \<le> j \<and> i \<le> length (contents view) \<and>
           match_here (flag_icase flags) rx (drop i (contents view)) = Some (j - i)"
proof (cases "compile p flags")
  case None
  with assms show ?thesis by (simp add: find_all_def)
next
  case (Some rx)
  with assms obtain i j where ij: "(i, j) \<in> set (find_from (flag_icase flags) rx 0 (contents view))"
    "m = \<lparr>rbegin = int i, rend = int j\<rparr>"
    by (auto simp: find_all_def)
  from find_from_sound[OF ij(1)] ij(2) Some show ?thesis by auto
qed

lemma find_all_bounds:
  assumes "m \<in> set (find_all view p flags)"
  shows "0 \<le> rbegin m \<and> rbegin m \<le> rend m \<and> rend m \<le> int (length (contents view))"
proof -
  from find_all_sound[OF assms] obtain rx i j where
    *: "rbegin m = int i" "rend m = int j" "i \<le> j" "i \<le> length (contents view)"
       "match_here (flag_icase flags) rx (drop i (contents view)) = Some (j - i)"
    by blast
  from match_here_le[OF *(5)] *(3,4) have "j \<le> length (contents view)" by simp
  with * show ?thesis by simp
qed

lemma find_all_complete:
  assumes "compile p flags = Some rx" "k \<le> length (contents view)"
    "match_here (flag_icase flags) rx (drop k (contents view)) = Some n"
  shows "\<exists>m \<in> set (find_all view p flags).
           (rbegin m = int k \<and> rend m = int (k + n)) \<or> (rbegin m < int k \<and> int k < rend m)"
proof -
  from find_from_complete[OF assms(2,3), of 0]
  consider "(k, k + n) \<in> set (find_from (flag_icase flags) rx 0 (contents view))"
    | i j where "(i, j) \<in> set (find_from (flag_icase flags) rx 0 (contents view))" "i < k" "k < j"
    by auto
  then show ?thesis
  proof cases
    case 1
    then have "\<lparr>rbegin = int k, rend = int (k + n)\<rparr> \<in> set (find_all view p flags)"
      by (force simp: find_all_def assms(1))
    then show ?thesis by force
  next
    case 2
    then have "\<lparr>rbegin = int i, rend = int j\<rparr> \<in> set (find_all view p flags)"
      by (force simp: find_all_def assms(1))
    with 2 show ?thesis by force
  qed
qed

section \<open>The patterns of the eight rules\<close>

lemma compile_rule1: "compile (rule rule1) IGNORECASE = Some rx1" by code_simp

lemma compile_rule2: "compile (rule rule2) IGNORECASE = Some rx2" by code_simp

lemma compile_rule3: "compile (rule rule3) IGNORECASE = Some rx3" by code_simp

lemma compile_rule4: "compile (rule rule4) IGNORECASE = Some rx4" by code_simp

lemma compile_rule5: "compile (rule rule5) IGNORECASE = Some rx5" by code_simp

lemma compile_rule6: "compile (rule rule6) IGNORECASE = Some rx6" by code_simp

lemma compile_rule7: "compile (rule rule7) IGNORECASE = Some rx7" by code_simp

lemma compile_rule8: "compile (rule rule8) IGNORECASE = Some rx8" by code_simp

section \<open>Properties of the validator\<close>

lemma rule_applies_cong:
  "view_settings v1 = view_settings v2 \<Longrightarrow> rule_applies v1 r = rule_applies v2 r"
  by (simp add: rule_applies_def settings_get_def split: option.splits)

lemma find_all_cong:
  "contents v1 = contents v2 \<Longrightarrow> find_all v1 p flags = find_all v2 p flags"
  by (simp add: find_all_def split: option.splits)

lemma rule_errors_cong:
  "contents v1 = contents v2 \<Longrightarrow> rule_errors v1 r = rule_errors v2 r"
  by (simp add: rule_errors_def find_all_cong[of v1 v2])

lemma validate_contents_cong:
  "contents v1 = contents v2 \<Longrightarrow> view_settings v1 = view_settings v2 \<Longrightarrow>
   validate_contents self v1 = validate_contents self v2"
proof -
  assume c: "contents v1 = contents v2" and s: "view_settings v1 = view_settings v2"
  have "rule_applies v1 = rule_applies v2"
    using rule_applies_cong[OF s] by (rule ext)
  moreover have "rule_errors v1 = rule_errors v2"
    using rule_errors_cong[OF c] by (rule ext)
  ultimately show ?thesis by (simp add: validate_contents_eq)
qed

declare run_rules.simps [simp del]

lemma run_rules_eq:
  "run_rules i errors \<sigma> = (foldl (validate_rule (the_view \<sigma>)) errors (drop i (rules_attr \<sigma>)), \<sigma>)"
proof (induction "length (rules_attr \<sigma>) - i" arbitrary: i errors)
  case 0
  then show ?case by (subst run_rules.simps) simp
next
  case (Suc d)
  then have i: "i < length (rules_attr \<sigma>)" and d: "d = length (rules_attr \<sigma>) - Suc i"
    by arith+
  from i have "drop i (rules_attr \<sigma>) = rules_attr \<sigma> ! i # drop (Suc i) (rules_attr \<sigma>)"
    by (simp add: Cons_nth_drop_Suc)
  with Suc.hyps(1)[OF d] i show ?case
    by (subst run_rules.simps) (simp add: run_rule_eq)
qed

lemma validate_contents_state_eq:
  "validate_contents_state \<sigma> =
     (validate_contents \<lparr>rules = rules_attr \<sigma>\<rparr> (the_view \<sigma>), \<sigma>)"
  by (simp add: validate_contents_state_def run_rules_eq validate_contents_def)

text \<open>
  Claim C8. A call of \<open>validate_contents\<close> hands the rule list and the view back as
  it found them and returns the value of a function of the rule list, the text and the
  settings; a second call on the state the first one left returns the same list in the
  same order; and two states that agree on the rule list, the text and the settings
  give the same list, whatever else differs between their views.
\<close>

theorem validate_contents_pure:
  "validate_contents_state \<sigma> = (validate_contents \<lparr>rules = rules_attr \<sigma>\<rparr> (the_view \<sigma>), \<sigma>) \<and>
   (case validate_contents_state \<sigma> of
      (errors1, \<sigma>1) \<Rightarrow>
        (case validate_contents_state \<sigma>1 of
           (errors2, \<sigma>2) \<Rightarrow> errors2 = errors1 \<and> \<sigma>1 = \<sigma> \<and> \<sigma>2 = \<sigma>)) \<and>
   (rules_attr \<sigma> = rules_attr \<sigma>' \<and> contents (the_view \<sigma>) = contents (the_view \<sigma>') \<and>
    view_settings (the_view \<sigma>) = view_settings (the_view \<sigma>') \<longrightarrow>
      fst (validate_contents_state \<sigma>) = fst (validate_contents_state \<sigma>'))"
proof (intro conjI impI)
  show "validate_contents_state \<sigma> = (validate_contents \<lparr>rules = rules_attr \<sigma>\<rparr> (the_view \<sigma>), \<sigma>)"
    by (rule validate_contents_state_eq)
next
  show "case validate_contents_state \<sigma> of
      (errors1, \<sigma>1) \<Rightarrow>
        (case validate_contents_state \<sigma>1 of
           (errors2, \<sigma>2) \<Rightarrow> errors2 = errors1 \<and> \<sigma>1 = \<sigma> \<and> \<sigma>2 = \<sigma>)"
    by (simp add: validate_contents_state_eq)
next
  assume "rules_attr \<sigma> = rules_attr \<sigma>' \<and> contents (the_view \<sigma>) = contents (the_view \<sigma>') \<and>
    view_settings (the_view \<sigma>) = view_settings (the_view \<sigma>')"
  then show "fst (validate_contents_state \<sigma>) = fst (validate_contents_state \<sigma>')"
    using validate_contents_cong[of "the_view \<sigma>" "the_view \<sigma>'" "\<lparr>rules = rules_attr \<sigma>'\<rparr>"]
    by (simp add: validate_contents_state_eq)
qed

lemma find_all_compiled:
  "compile p IGNORECASE = Some rx \<Longrightarrow>
   find_all view p IGNORECASE =
     map (\<lambda>(i, j). \<lparr>rbegin = int i, rend = int j\<rparr>) (find_from True rx 0 (contents view))"
  by (simp add: find_all_def flag_icase_def IGNORECASE_def)

lemma rule_errors_compiled:
  "compile (rule r) IGNORECASE = Some rx \<Longrightarrow>
   rule_errors view r = map (\<lambda>(i, j). error_at i j r) (find_from True rx 0 (contents view))"
  by (simp add: rule_errors_def find_all_compiled error_at_def case_prod_unfold)

lemmas compile_rules =
  compile_rule1 compile_rule2 compile_rule3 compile_rule4
  compile_rule5 compile_rule6 compile_rule7 compile_rule8

lemma rule_settings:
  "setting rule1 = Some ''csp_chromeapps''" "setting rule2 = Some ''csp_chromeapps''"
  "setting rule3 = None" "setting rule4 = None" "setting rule5 = None" "setting rule6 = None"
  "setting rule7 = Some ''csp_chromeapps''" "setting rule8 = Some ''csp_chromeapps''"
  by (simp_all add: rule1_def rule2_def rule3_def rule4_def rule5_def rule6_def rule7_def rule8_def)

lemma rule_messages:
  "CSPRule.message rule1 = ''External resources are not allowed''"
  "CSPRule.message rule2 = ''External resources are not allowed''"
  "CSPRule.message rule3 = ''Inline scripts are not allowed''"
  "CSPRule.message rule4 = ''Code creation from strings, e.g. eval / new Function not allowed''"
  "CSPRule.message rule6 = ''Event handlers should be added from an external src file''"
  "CSPRule.message rule7 = ''External resources are not allowed''"
  "CSPRule.message rule8 = ''Inline JavaScript calls are not allowed''"
  by (simp_all add: rule1_def rule2_def rule3_def rule4_def rule6_def rule7_def rule8_def)

lemma rule_applies_rules:
  "rule_applies view rule1 = flag_on view" "rule_applies view rule2 = flag_on view"
  "rule_applies view rule3" "rule_applies view rule4" "rule_applies view rule5"
  "rule_applies view rule6"
  "rule_applies view rule7 = flag_on view" "rule_applies view rule8 = flag_on view"
  by (simp_all add: rule_applies_def rule_settings flag_on_def)

lemma validate_flag_off:
  "\<not> flag_on view \<Longrightarrow>
   validate_contents validator view =
     rule_errors view rule3 @ rule_errors view rule4 @ rule_errors view rule5 @ rule_errors view rule6"
  by (simp add: validate_contents_eq validator_def rule_applies_rules)

lemma validate_flag_on:
  "flag_on view \<Longrightarrow>
   validate_contents validator view =
     rule_errors view rule1 @ rule_errors view rule2 @ rule_errors view rule3 @
     rule_errors view rule4 @ rule_errors view rule5 @ rule_errors view rule6 @
     rule_errors view rule7 @ rule_errors view rule8"
  by (simp add: validate_contents_eq validator_def rule_applies_rules)

text \<open>
  Claim C7. A setting name that the view's settings do not hold reads as \<open>None\<close>,
  which is not equal to 1: every rule gated on that name is skipped, and the result is
  that of the rule list without those rules. No branch of the function fails.
\<close>

theorem unknown_flag_skipped:
  "view_settings view key = None \<Longrightarrow>
   \<not> eq_one (settings_get view key) \<and>
   (\<forall>r errors. setting r = Some key \<longrightarrow> validate_rule view errors r = errors) \<and>
   validate_contents self view =
     validate_contents (self\<lparr>rules := filter (\<lambda>r. setting r \<noteq> Some key) (rules self)\<rparr>) view"
proof -
  assume absent: "view_settings view key = None"
  then have off: "\<not> eq_one (settings_get view key)"
    by (simp add: settings_get_def)
  then have skip: "\<And>r. setting r = Some key \<Longrightarrow> \<not> rule_applies view r"
    by (simp add: rule_applies_def)
  then have "\<And>r. (setting r \<noteq> Some key \<and> rule_applies view r) = rule_applies view r"
    by blast
  then have "filter (rule_applies view) (filter (\<lambda>r. setting r \<noteq> Some key) (rules self)) =
             filter (rule_applies view) (rules self)"
    by simp
  with off skip show ?thesis
    by (simp add: validate_contents_eq validate_rule_eq)
qed

text \<open>
  Claim C9. Every error that \<open>validate_contents\<close> returns has a region inside the
  text, \<open>0 \<le> begin \<le> end \<le> length\<close>, and carries the message of one of the eight
  rules, which is not empty.
\<close>

theorem findings_well_formed:
  "e \<in> set (validate_contents validator view) \<Longrightarrow>
   0 \<le> rbegin (region e) \<and> rbegin (region e) \<le> rend (region e) \<and>
   rend (region e) \<le> int (length (contents view)) \<and>
   CSPError.message e \<in> set (map CSPRule.message (rules validator)) \<and>
   CSPError.message e \<noteq> []"
proof -
  assume "e \<in> set (validate_contents validator view)"
  then obtain r m where r: "r \<in> set (rules validator)"
    and m: "m \<in> set (find_all view (rule r) IGNORECASE)"
    and e: "e = \<lparr>region = m, message = CSPRule.message r\<rparr>"
    by (auto simp: validate_contents_eq rule_errors_def)
  from r have "CSPRule.message r \<noteq> []"
    by (auto simp: validator_def rule1_def rule2_def rule3_def rule4_def rule5_def rule6_def
        rule7_def rule8_def)
  with find_all_bounds[OF m] r e show ?thesis by simp
qed

text \<open>
  Claim C2. The result is the concatenation, in the order of the rule list, of the
  errors of each rule that applies; within one rule the regions are in increasing
  order of their start and do not overlap; and every position where the rule's pattern
  matches is the start of a reported region or lies inside one that started earlier.
\<close>

theorem validate_contents_order:
  "validate_contents self view =
     concat (map (rule_errors view) (filter (rule_applies view) (rules self))) \<and>
   sorted_wrt (\<lambda>m m'. rbegin m < rbegin m' \<and> rend m \<le> rbegin m') (find_all view p IGNORECASE) \<and>
   (\<forall>rx k n. compile p IGNORECASE = Some rx \<longrightarrow> k \<le> length (contents view) \<longrightarrow>
      match_here True rx (drop k (contents view)) = Some n \<longrightarrow>
      (\<exists>m \<in> set (find_all view p IGNORECASE).
         (rbegin m = int k \<and> rend m = int (k + n)) \<or> (rbegin m < int k \<and> int k < rend m)))"
proof -
  have "flag_icase IGNORECASE" by (simp add: flag_icase_def IGNORECASE_def)
  then show ?thesis
    using find_all_complete[of p IGNORECASE _ _ view] find_all_sorted[of view p IGNORECASE]
    by (simp add: validate_contents_eq)
qed

lemma handler_view_off: "\<not> flag_on handler_view"
  by (simp add: flag_on_def handler_view_def example_view_def settings_get_def)

lemma handler_view_find:
  "find_from True rx3 0 (contents handler_view) = []"
  "find_from True rx4 0 (contents handler_view) = [(11, 15), (20, 24)]"
  "find_from True rx5 0 (contents handler_view) = []"
  "find_from True rx6 0 (contents handler_view) = [(0, 19)]"
  by code_simp+

lemma validate_handler_view:
  "validate_contents validator handler_view =
     [error_at 11 15 rule4, error_at 20 24 rule4, error_at 0 19 rule6]"
  by (simp add: validate_flag_off[OF handler_view_off] rule_errors_compiled compile_rules
      handler_view_find)

text \<open>
  Witness of C2: a text on which rule 4 matches twice and rule 6 once, before both.
\<close>

theorem validate_contents_order_witness:
  "compile (rule rule4) IGNORECASE = Some rx4 \<and> 20 \<le> length (contents handler_view) \<and>
   match_here True rx4 (drop 20 (contents handler_view)) = Some 4 \<and>
   validate_contents validator handler_view =
     concat (map (rule_errors handler_view) (filter (rule_applies handler_view) (rules validator))) \<and>
   validate_contents validator handler_view =
     [error_at 11 15 rule4, error_at 20 24 rule4, error_at 0 19 rule6] \<and>
   (\<exists>m \<in> set (find_all handler_view (rule rule4) IGNORECASE).
      (rbegin m = int 20 \<and> rend m = int (20 + 4)) \<or> (rbegin m < int 20 \<and> int 20 < rend m))"
proof -
  have h1: "compile (rule rule4) IGNORECASE = Some rx4" by (rule compile_rule4)
  have h2: "20 \<le> length (contents handler_view)" by code_simp
  have h3: "match_here True rx4 (drop 20 (contents handler_view)) = Some 4" by code_simp
  from validate_contents_order[of validator handler_view "rule rule4"] h1 h2 h3
  show ?thesis by (simp only: validate_handler_view)
qed

text \<open>
  Witness of C9, on the same text.
\<close>

theorem findings_well_formed_witness:
  "error_at 0 19 rule6 \<in> set (validate_contents validator handler_view) \<and>
   0 \<le> rbegin (region (error_at 0 19 rule6)) \<and>
   rbegin (region (error_at 0 19 rule6)) \<le> rend (region (error_at 0 19 rule6)) \<and>
   rend (region (error_at 0 19 rule6)) \<le> int (length (contents handler_view)) \<and>
   CSPError.message (error_at 0 19 rule6) \<in> set (map CSPRule.message (rules validator)) \<and>
   CSPError.message (error_at 0 19 rule6) \<noteq> []"
proof -
  have h: "error_at 0 19 rule6 \<in> set (validate_contents validator handler_view)"
    by (simp add: validate_handler_view)
  from findings_well_formed[OF h] h show ?thesis by simp
qed

text \<open>
  Witness of C7: the view holds no setting at all.
\<close>

theorem unknown_flag_skipped_witness:
  "view_settings handler_view ''csp_chromeapps'' = None \<and>
   \<not> eq_one (settings_get handler_view ''csp_chromeapps'') \<and>
   validate_contents validator handler_view =
     validate_contents
       (validator\<lparr>rules := filter (\<lambda>r. setting r \<noteq> Some ''csp_chromeapps'') (rules validator)\<rparr>)
       handler_view"
proof -
  have h: "view_settings handler_view ''csp_chromeapps'' = None"
    by (simp add: handler_view_def example_view_def)
  from unknown_flag_skipped[OF h, of validator] h show ?thesis by simp
qed

text \<open>
  Witness of C8: the call on a view with three matches returns its three errors and the
  state it was given, twice in a row; a second state, whose view carries regions and a
  status, gives the same list.
\<close>

theorem validate_contents_pure_witness:
  "rules_attr handler_state = rules_attr handler_state_busy \<and>
   contents (the_view handler_state) = contents (the_view handler_state_busy) \<and>
   view_settings (the_view handler_state) = view_settings (the_view handler_state_busy) \<and>
   handler_state \<noteq> handler_state_busy \<and>
   fst (validate_contents_state handler_state) = fst (validate_contents_state handler_state_busy) \<and>
   validate_contents_state handler_state =
     ([error_at 11 15 rule4, error_at 20 24 rule4, error_at 0 19 rule6], handler_state) \<and>
   validate_contents_state (snd (validate_contents_state handler_state)) =
     ([error_at 11 15 rule4, error_at 20 24 rule4, error_at 0 19 rule6], handler_state)"
proof -
  have h1: "rules_attr handler_state = rules_attr handler_state_busy"
    by (simp add: handler_state_def handler_state_busy_def)
  have h2: "contents (the_view handler_state) = contents (the_view handler_state_busy)"
    by (simp add: handler_state_def handler_state_busy_def handler_view_busy_def)
  have h3: "view_settings (the_view handler_state) = view_settings (the_view handler_state_busy)"
    by (simp add: handler_state_def handler_state_busy_def handler_view_busy_def)
  have "view_status handler_view ''cspvalidation_error'' \<noteq>
        view_status handler_view_busy ''cspvalidation_error''"
    by (simp add: handler_view_busy_def handler_view_def example_view_def)
  then have "handler_view \<noteq> handler_view_busy" by auto
  then have h4: "handler_state \<noteq> handler_state_busy"
    by (simp add: handler_state_def handler_state_busy_def)
  have v: "validate_contents \<lparr>rules = rules_attr handler_state\<rparr> (the_view handler_state) =
      [error_at 11 15 rule4, error_at 20 24 rule4, error_at 0 19 rule6]"
    using validate_handler_view by (simp add: handler_state_def validator_def)
  note t = validate_contents_pure[of handler_state handler_state_busy]
  from t h1 h2 h3
  have e: "fst (validate_contents_state handler_state) = fst (validate_contents_state handler_state_busy)"
    by blast
  from t v have r: "validate_contents_state handler_state =
     ([error_at 11 15 rule4, error_at 20 24 rule4, error_at 0 19 rule6], handler_state)"
    by simp
  from h1 h2 h3 h4 e r show ?thesis by simp
qed

subsection \<open>Texts without a match\<close>

lemma find_all_no_occurrence:
  assumes "\<not> occurs view p"
  shows "find_all view p IGNORECASE = []"
proof (cases "compile p IGNORECASE")
  case None
  then show ?thesis by (simp add: find_all_def)
next
  case (Some rx)
  with assms have "\<And>k. k \<le> length (contents view) \<Longrightarrow>
      match_here True rx (drop k (contents view)) = None"
    by (auto simp: occurs_def list_ex_iff)
  then have "find_from True rx 0 (contents view) = []"
    by (rule find_from_no_match)
  with Some show ?thesis by (simp add: find_all_compiled)
qed

lemma find_from_empty_text:
  "find_from True rx1 0 [] = []" "find_from True rx2 0 [] = []"
  "find_from True rx3 0 [] = []" "find_from True rx4 0 [] = []"
  "find_from True rx5 0 [] = []" "find_from True rx6 0 [] = []"
  "find_from True rx7 0 [] = []" "find_from True rx8 0 [] = []"
  by code_simp+

lemma validate_empty_text:
  assumes "contents view = []"
  shows "validate_contents validator view = []"
proof (cases "flag_on view")
  case True
  then show ?thesis
    by (simp add: validate_flag_on rule_errors_compiled compile_rules assms find_from_empty_text)
next
  case False
  then show ?thesis
    by (simp add: validate_flag_off rule_errors_compiled compile_rules assms find_from_empty_text)
qed

text \<open>
  Claim C4. On the empty text \<open>validate_contents\<close> returns the empty list, whatever
  the settings; and for any rule list, when no rule that applies has a pattern that
  matches at any position of the text, the result is the empty list.
\<close>

theorem no_occurrence_no_findings:
  "(contents view = [] \<longrightarrow> validate_contents validator view = []) \<and>
   ((\<forall>r \<in> set (rules self). rule_applies view r \<longrightarrow> \<not> occurs view (rule r)) \<longrightarrow>
      validate_contents self view = [])"
proof -
  have "validate_contents self view = []"
    if "\<forall>r \<in> set (rules self). rule_applies view r \<longrightarrow> \<not> occurs view (rule r)"
    using that by (auto simp: validate_contents_eq rule_errors_def find_all_no_occurrence)
  then show ?thesis using validate_empty_text by blast
qed

lemma plain_view_no_occurrence:
  "\<not> occurs plain_view (rule rule3)" "\<not> occurs plain_view (rule rule4)"
  "\<not> occurs plain_view (rule rule5)" "\<not> occurs plain_view (rule rule6)"
  by code_simp+

text \<open>
  Witness of C4: the empty text with the setting on, and a text without any match with
  the setting absent.
\<close>

theorem no_occurrence_no_findings_witness:
  "contents (example_view [] (Some (SInt 1))) = [] \<and>
   validate_contents validator (example_view [] (Some (SInt 1))) = [] \<and>
   \<not> rule_applies plain_view rule1 \<and> \<not> rule_applies plain_view rule2 \<and>
   \<not> occurs plain_view (rule rule3) \<and> \<not> occurs plain_view (rule rule4) \<and>
   \<not> occurs plain_view (rule rule5) \<and> \<not> occurs plain_view (rule rule6) \<and>
   \<not> rule_applies plain_view rule7 \<and> \<not> rule_applies plain_view rule8 \<and>
   validate_contents validator plain_view = []"
proof -
  have h1: "contents (example_view [] (Some (SInt 1))) = []"
    by (simp add: example_view_def)
  have off: "\<not> flag_on plain_view"
    by (simp add: flag_on_def plain_view_def example_view_def settings_get_def)
  then have h2: "\<forall>r \<in> set (rules validator). rule_applies plain_view r \<longrightarrow> \<not> occurs plain_view (rule r)"
    by (simp add: validator_def rule_applies_rules plain_view_no_occurrence)
  from no_occurrence_no_findings[of "example_view [] (Some (SInt 1))" validator] h1
  have e1: "validate_contents validator (example_view [] (Some (SInt 1))) = []" by blast
  from no_occurrence_no_findings[of plain_view validator] h2
  have e2: "validate_contents validator plain_view = []" by blast
  from h1 e1 e2 off show ?thesis
    by (simp add: rule_applies_rules plain_view_no_occurrence)
qed

subsection \<open>Inline scripts\<close>

lemma inline_script_find:
  "find_from True rx1 0 inline_script = []" "find_from True rx2 0 inline_script = []"
  "find_from True rx3 0 inline_script = [(0, 36)]" "find_from True rx4 0 inline_script = []"
  "find_from True rx5 0 inline_script = []" "find_from True rx6 0 inline_script = []"
  "find_from True rx7 0 inline_script = []" "find_from True rx8 0 inline_script = []"
  by code_simp+

lemma external_script_find:
  "find_from True rx1 0 external_script = []" "find_from True rx2 0 external_script = []"
  "find_from True rx3 0 external_script = []" "find_from True rx4 0 external_script = []"
  "find_from True rx5 0 external_script = []" "find_from True rx6 0 external_script = []"
  "find_from True rx7 0 external_script = []" "find_from True rx8 0 external_script = []"
  by code_simp+

lemma validate_inline_script:
  assumes "contents view = inline_script"
  shows "validate_contents validator view = [error_at 0 36 rule3]"
proof (cases "flag_on view")
  case True
  then show ?thesis
    by (simp add: validate_flag_on rule_errors_compiled compile_rules assms inline_script_find)
next
  case False
  then show ?thesis
    by (simp add: validate_flag_off rule_errors_compiled compile_rules assms inline_script_find)
qed

lemma validate_external_script:
  assumes "contents view = external_script"
  shows "validate_contents validator view = []"
proof (cases "flag_on view")
  case True
  then show ?thesis
    by (simp add: validate_flag_on rule_errors_compiled compile_rules assms external_script_find)
next
  case False
  then show ?thesis
    by (simp add: validate_flag_off rule_errors_compiled compile_rules assms external_script_find)
qed

text \<open>
  Claim C3. Rule 3 matches across line breaks: on a script element whose body spans
  three lines the result is exactly one error, with rule 3's message, over the whole
  36 characters; on a script element with a \<open>src\<close> attribute and an empty body rule 3
  finds nothing (and neither does any other rule). Both hold for every state of the
  settings.
\<close>

theorem inline_script_across_lines:
  "length inline_script = 36 \<and>
   validate_contents validator
     \<lparr>contents = inline_script, view_settings = st, view_regions = rg, view_status = status\<rparr> =
     [\<lparr>region = \<lparr>rbegin = 0, rend = 36\<rparr>, message = ''Inline scripts are not allowed''\<rparr>] \<and>
   find_all \<lparr>contents = external_script, view_settings = st, view_regions = rg, view_status = status\<rparr>
     (rule rule3) IGNORECASE = [] \<and>
   validate_contents validator
     \<lparr>contents = external_script, view_settings = st, view_regions = rg, view_status = status\<rparr> = []"
proof -
  have "length inline_script = 36" by (simp add: inline_script_def)
  moreover have "find_all \<lparr>contents = external_script, view_settings = st, view_regions = rg,
      view_status = status\<rparr> (rule rule3) IGNORECASE = []"
    by (simp add: find_all_compiled compile_rule3 external_script_find)
  ultimately show ?thesis
    by (simp add: validate_inline_script validate_external_script error_at_def rule_messages)
qed

subsection \<open>Case-insensitive matching\<close>

lemma code_to_lower:
  "(of_char (to_lower c) :: nat) =
     (if 65 \<le> (of_char c :: nat) \<and> (of_char c :: nat) \<le> 90 then of_char c + 32 else of_char c)"
  by (simp add: to_lower_def Let_def)

lemma code_eq_iff: "(c = d) = ((of_char c :: nat) = of_char d)"
  by simp

lemma is_space_code: "is_space c = ((of_char c :: nat) \<in> {32, 9, 10, 11, 12, 13})"
  unfolding is_space_def by (simp add: code_eq_iff[of c])

lemma is_newline_code: "is_newline c = ((of_char c :: nat) \<in> {10, 12, 13})"
  unfolding is_newline_def by (simp add: code_eq_iff[of c])

lemma to_lower_idem: "to_lower (to_lower c) = to_lower c"
  by (simp add: code_eq_iff[of "to_lower (to_lower c)"] code_to_lower)

lemma same_fold_code:
  "to_lower c = to_lower d \<Longrightarrow>
   c = d \<or> (65 \<le> (of_char c :: nat) \<and> 65 \<le> (of_char d :: nat))"
  by (simp add: code_eq_iff[of "to_lower c"] code_to_lower split: if_splits)

lemma is_space_fold: "to_lower c = to_lower d \<Longrightarrow> is_space c = is_space d"
  by (drule same_fold_code) (auto simp: is_space_code)

lemma is_newline_fold: "to_lower c = to_lower d \<Longrightarrow> is_newline c = is_newline d"
  by (drule same_fold_code) (auto simp: is_newline_code)

lemma item_accepts_fold:
  "to_lower c = to_lower d \<Longrightarrow> item_accepts True i c = item_accepts True i d"
  by (cases i) (auto dest: is_space_fold)

lemma accepts_fold:
  "to_lower c = to_lower d \<Longrightarrow> accepts True cs c = accepts True cs d"
  by (cases cs) (auto simp: list_ex_iff dest: is_space_fold is_newline_fold item_accepts_fold)

lemma same_fold_length: "same_fold s t \<Longrightarrow> length s = length t"
  unfolding same_fold_def by (rule map_eq_imp_length_eq)

lemma same_fold_drop: "same_fold s t \<Longrightarrow> same_fold (drop n s) (drop n t)"
  unfolding same_fold_def by (simp add: drop_map[symmetric])

lemma same_fold_Cons: "same_fold (c # s) u = (\<exists>d t. u = d # t \<and> to_lower c = to_lower d \<and> same_fold s t)"
  unfolding same_fold_def by (cases u) auto

lemma star_fold:
  assumes f: "\<And>t t' h h'. same_fold t t' \<Longrightarrow> (\<And>u u'. same_fold u u' \<Longrightarrow> h u = h' u') \<Longrightarrow>
                f t h = f' t' h'"
  shows "same_fold s s' \<Longrightarrow> (\<And>u u'. same_fold u u' \<Longrightarrow> k u = k' u') \<Longrightarrow>
         star g f n s k = star g f' n s' k'"
proof (induction n arbitrary: s s')
  case 0
  then show ?case by simp
next
  case (Suc n)
  have len: "length s = length s'" using Suc.prems(1) by (rule same_fold_length)
  have k: "k s = k' s'" using Suc.prems by blast
  have "f s (\<lambda>u. if length u < length s then star g f n u k else None) =
        f' s' (\<lambda>u. if length u < length s' then star g f' n u k' else None)"
  proof (rule f[OF Suc.prems(1)])
    fix u u' assume uu: "same_fold u u'"
    then have "length u = length u'" by (rule same_fold_length)
    with len Suc.IH[OF uu Suc.prems(2)]
    show "(if length u < length s then star g f n u k else None) =
          (if length u' < length s' then star g f' n u' k' else None)"
      by simp
  qed
  with k show ?case by (simp cong: option.case_cong)
qed

lemma match_re_fold:
  "same_fold s s' \<Longrightarrow> (\<And>u u'. same_fold u u' \<Longrightarrow> k u = k' u') \<Longrightarrow>
   match_re True r s k = match_re True r s' k'"
proof (induction r arbitrary: s s' k k')
  case Epsilon
  then show ?case by simp
next
  case (Atom cs)
  show ?case
  proof (cases s)
    case Nil
    with Atom.prems(1) have "s' = []" by (simp add: same_fold_def)
    with Nil show ?thesis by simp
  next
    case (Cons c t)
    with Atom.prems(1) obtain d t' where s': "s' = d # t'" "to_lower c = to_lower d" "same_fold t t'"
      by (auto simp: same_fold_Cons)
    from accepts_fold[OF s'(2)] Atom.prems(2)[OF s'(3)] Cons s'(1) show ?thesis by simp
  qed
next
  case (Seq r1 r2)
  have "match_re True r1 s (\<lambda>u. match_re True r2 u k) = match_re True r1 s' (\<lambda>u. match_re True r2 u k')"
    by (rule Seq.IH(1)[OF Seq.prems(1)]) (rule Seq.IH(2)[OF _ Seq.prems(2)])
  then show ?case by simp
next
  case (Alt r1 r2)
  have "match_re True r1 s k = match_re True r1 s' k'"
    by (rule Alt.IH(1)[OF Alt.prems(1)]) (rule Alt.prems(2))
  moreover have "match_re True r2 s k = match_re True r2 s' k'"
    by (rule Alt.IH(2)[OF Alt.prems(1)]) (rule Alt.prems(2))
  ultimately show ?case by (simp cong: option.case_cong)
next
  case (Star g r)
  have "star g (\<lambda>t h. match_re True r t h) (length s) s k =
        star g (\<lambda>t h. match_re True r t h) (length s) s' k'"
    by (rule star_fold[OF _ Star.prems]) (rule Star.IH)
  with same_fold_length[OF Star.prems(1)] show ?case by simp
qed

lemma match_here_fold:
  "same_fold s s' \<Longrightarrow> match_here True r s = match_here True r s'"
proof -
  assume a: "same_fold s s'"
  show ?thesis
    unfolding match_here_def
  proof (rule match_re_fold[OF a])
    fix u u' assume "same_fold u u'"
    then show "Some (length s - length u) = Some (length s' - length u')"
      by (simp add: same_fold_length[OF a] same_fold_length[of u u'])
  qed
qed

lemma find_from_fold:
  "same_fold s s' \<Longrightarrow> find_from True r pos s = find_from True r pos s'"
proof (induction "length s" arbitrary: s s' pos rule: less_induct)
  case less
  have m: "match_here True r s = match_here True r s'"
    using less.prems by (rule match_here_fold)
  have len: "length s = length s'" using less.prems by (rule same_fold_length)
  show ?case
  proof (cases s)
    case Nil
    with len have "s' = []" by simp
    with Nil show ?thesis by simp
  next
    case (Cons c t)
    with less.prems obtain d t' where s': "s' = d # t'" "same_fold t t'"
      by (auto simp: same_fold_Cons)
    have tl: "\<And>p. find_from True r p t = find_from True r p t'"
      using less.hyps[OF _ s'(2)] Cons by simp
    show ?thesis
    proof (cases "match_here True r s")
      case None
      with m Cons s' tl show ?thesis by (simp add: find_from_None)
    next
      case (Some n)
      show ?thesis
      proof (cases "n = 0")
        case True
        with Some m Cons s' tl show ?thesis by (simp add: find_from_Zero)
      next
        case False
        from match_here_le[OF Some] False Cons have "length (drop n s) < length s" by simp
        from less.hyps[OF this same_fold_drop[OF less.prems]]
        have "find_from True r (pos + n) (drop n s) = find_from True r (pos + n) (drop n s')" .
        with Some m False show ?thesis by (simp add: find_from_Some)
      qed
    qed
  qed
qed

lemma find_all_fold:
  "same_fold (contents v1) (contents v2) \<Longrightarrow> find_all v1 p IGNORECASE = find_all v2 p IGNORECASE"
  by (simp add: find_all_def flag_icase_def IGNORECASE_def find_from_fold[of "contents v1" "contents v2"]
      split: option.splits)

lemma upper_script_find:
  "find_from True rx1 0 upper_script = [(0, 31)]" "find_from True rx2 0 upper_script = []"
  "find_from True rx3 0 upper_script = []" "find_from True rx4 0 upper_script = []"
  "find_from True rx5 0 upper_script = []" "find_from True rx6 0 upper_script = []"
  "find_from True rx7 0 upper_script = []" "find_from True rx8 0 upper_script = []"
  by code_simp+

lemma lower_script_find:
  "find_from True rx1 0 lower_script = [(0, 31)]" "find_from True rx2 0 lower_script = []"
  "find_from True rx3 0 lower_script = []" "find_from True rx4 0 lower_script = []"
  "find_from True rx5 0 lower_script = []" "find_from True rx6 0 lower_script = []"
  "find_from True rx7 0 lower_script = []" "find_from True rx8 0 lower_script = []"
  by code_simp+

lemma example_view_on: "flag_on (example_view t (Some (SInt 1)))"
  by (simp add: flag_on_def example_view_def settings_get_def)

lemma example_view_contents: "contents (example_view t flag) = t"
  by (simp add: example_view_def)

lemma validate_fold:
  assumes "map to_lower (contents v1) = map to_lower (contents v2)"
    and "view_settings v1 = view_settings v2"
  shows "validate_contents self v1 = validate_contents self v2"
proof -
  have "same_fold (contents v1) (contents v2)"
    using assms(1) by (simp add: same_fold_def)
  then have "\<And>p. find_all v1 p IGNORECASE = find_all v2 p IGNORECASE"
    by (rule find_all_fold)
  then have "rule_errors v1 = rule_errors v2"
    by (simp add: rule_errors_def fun_eq_iff)
  moreover have "rule_applies v1 = rule_applies v2"
    using rule_applies_cong[OF assms(2)] by (rule ext)
  ultimately show ?thesis by (simp add: validate_contents_eq)
qed

text \<open>
  Claim C5. Matching ignores case for every rule: two texts that differ only in the
  case of their letters give the same errors at the same regions. In particular the
  upper-case external script tag gives, with the setting on, the same error of rule 1
  over the same region as its lower-case form.
\<close>

theorem matching_ignores_case:
  "(map to_lower (contents v1) = map to_lower (contents v2) \<and> view_settings v1 = view_settings v2 \<longrightarrow>
      validate_contents self v1 = validate_contents self v2) \<and>
   validate_contents validator (example_view upper_script (Some (SInt 1))) =
     [\<lparr>region = \<lparr>rbegin = 0, rend = 31\<rparr>, message = ''External resources are not allowed''\<rparr>] \<and>
   validate_contents validator (example_view lower_script (Some (SInt 1))) =
     [\<lparr>region = \<lparr>rbegin = 0, rend = 31\<rparr>, message = ''External resources are not allowed''\<rparr>]"
proof -
  have "validate_contents validator (example_view upper_script (Some (SInt 1))) = [error_at 0 31 rule1]"
    by (simp add: validate_flag_on example_view_on rule_errors_compiled compile_rules
        example_view_contents upper_script_find)
  moreover
  have "validate_contents validator (example_view lower_script (Some (SInt 1))) = [error_at 0 31 rule1]"
    by (simp add: validate_flag_on example_view_on rule_errors_compiled compile_rules
        example_view_contents lower_script_find)
  ultimately show ?thesis
    using validate_fold[of v1 v2 self] by (simp add: error_at_def rule_messages)
qed

text \<open>
  Witness of C5: the upper-case and the lower-case script tag.
\<close>

theorem matching_ignores_case_witness:
  "map to_lower (contents (example_view upper_script (Some (SInt 1)))) =
     map to_lower (contents (example_view lower_script (Some (SInt 1)))) \<and>
   upper_script \<noteq> lower_script \<and>
   view_settings (example_view upper_script (Some (SInt 1))) =
     view_settings (example_view lower_script (Some (SInt 1))) \<and>
   validate_contents validator (example_view upper_script (Some (SInt 1))) =
     validate_contents validator (example_view lower_script (Some (SInt 1)))"
proof -
  have h1: "map to_lower (contents (example_view upper_script (Some (SInt 1)))) =
     map to_lower (contents (example_view lower_script (Some (SInt 1))))"
    by code_simp
  have h2: "view_settings (example_view upper_script (Some (SInt 1))) =
     view_settings (example_view lower_script (Some (SInt 1)))"
    by (simp add: example_view_def)
  have h3: "upper_script \<noteq> lower_script"
    by (simp add: upper_script_def lower_script_def)
  from matching_ignores_case[of "example_view upper_script (Some (SInt 1))"
      "example_view lower_script (Some (SInt 1))" validator] h1 h2 h3
  show ?thesis by blast
qed

subsection \<open>Rule 4: eval and new Function\<close>

lemma iprefix_Nil: "iprefix [] s"
  by (simp add: iprefix_def)

lemma iprefix_Cons:
  "iprefix (c # w) s = (case s of [] \<Rightarrow> False | d # t \<Rightarrow> to_lower d = to_lower c \<and> iprefix w t)"
  by (cases s) (auto simp: iprefix_def)

lemma seqs_Cons: "seqs (r # rs) = Seq r (seqs rs)"
  by (simp add: seqs_def)

lemma match_chars:
  "match_re True (seqs (chars w @ rs)) s k =
     (if iprefix w s then match_re True (seqs rs) (drop (length w) s) k else None)"
proof (induction w arbitrary: s)
  case Nil
  then show ?case by (simp add: chars_def iprefix_Nil)
next
  case (Cons c w)
  have "chars (c # w) @ rs = Atom (CChar c) # (chars w @ rs)" by (simp add: chars_def)
  then show ?case
    using Cons.IH by (cases s) (simp_all add: seqs_Cons iprefix_Cons)
qed

lemma match_chars_end:
  "match_re True (seqs (chars w)) s k = (if iprefix w s then k (drop (length w) s) else None)"
  using match_chars[of w "[]" s k] by (simp add: seqs_def)

lemma match_here_rx4:
  "match_here True rx4 s =
     (if iprefix ''eval'' s then Some 4 else if iprefix ''new Function'' s then Some 12 else None)"
  by (auto simp: match_here_def rx4_def match_chars_end iprefix_def)

lemma iprefix_nth:
  assumes "iprefix w (drop a s)" "j < length w"
  shows "to_lower (s ! (a + j)) = to_lower (w ! j)"
proof -
  from assms have len: "length w \<le> length (drop a s)"
    and eq: "map to_lower (take (length w) (drop a s)) = map to_lower w"
    by (simp_all add: iprefix_def)
  from eq have "map to_lower (take (length w) (drop a s)) ! j = map to_lower w ! j" by simp
  with assms(2) len show ?thesis by (simp add: nth_map)
qed

lemma overlap_shift:
  assumes "iprefix w1 (drop a s)" "iprefix w2 (drop i s)" "a < i" "i < a + length w1"
  shows "i - a \<in> set (overlaps w1 w2)"
proof -
  have "to_lower (w1 ! (i - a + j)) = to_lower (w2 ! j)"
    if "j < length w1 - (i - a)" "j < length w2" for j
  proof -
    from that assms(3) have "i - a + j < length w1" by simp
    from iprefix_nth[OF assms(1) this] assms(3)
    have "to_lower (s ! (i + j)) = to_lower (w1 ! (i - a + j))" by simp
    with iprefix_nth[OF assms(2) that(2)] show ?thesis by simp
  qed
  then have "agree_at w1 w2 (i - a)"
    by (simp add: agree_at_def list_all_iff)
  moreover from assms(3,4) have "1 \<le> i - a" "i - a < length w1" by arith+
  ultimately show ?thesis by (simp add: overlaps_def)
qed

lemma overlaps_rule4:
  "overlaps ''eval'' ''eval'' = []" "overlaps ''new Function'' ''eval'' = []"
  "overlaps ''eval'' ''new Function'' = []" "overlaps ''new Function'' ''new Function'' = [11]"
  by code_simp+

lemma rx4_match_cases:
  assumes "match_here True rx4 s = Some n"
  shows "(n = 4 \<and> iprefix ''eval'' s) \<or> (n = 12 \<and> iprefix ''new Function'' s)"
  using assms by (auto simp: match_here_rx4 split: if_splits)

lemma rx4_region_cases:
  assumes "(a, b) \<in> set (find_from True rx4 0 s)"
  shows "(b = a + 4 \<and> iprefix ''eval'' (drop a s)) \<or> (b = a + 12 \<and> iprefix ''new Function'' (drop a s))"
proof -
  from find_from_sound[OF assms] have "a \<le> b" "match_here True rx4 (drop a s) = Some (b - a)"
    by simp_all
  with rx4_match_cases[of "drop a s" "b - a"] show ?thesis by auto
qed

lemma eval_found:
  assumes "iprefix ''eval'' (drop i s)"
  shows "(i, i + 4) \<in> set (find_from True rx4 0 s)"
proof -
  from assms have "4 \<le> length s - i" by (simp add: iprefix_def)
  then have len: "i \<le> length s" by arith
  from assms have m: "match_here True rx4 (drop i s) = Some 4" by (simp add: match_here_rx4)
  from find_from_complete[OF len m, of 0]
  consider "(i, i + 4) \<in> set (find_from True rx4 0 s)"
    | a b where "(a, b) \<in> set (find_from True rx4 0 s)" "a < i" "i < b"
    by auto
  then show ?thesis
  proof cases
    case 1
    then show ?thesis .
  next
    case 2
    from rx4_region_cases[OF 2(1)] show ?thesis
    proof (elim disjE conjE)
      assume "b = a + 4" "iprefix ''eval'' (drop a s)"
      with overlap_shift[of "''eval''" a s "''eval''" i] assms 2 show ?thesis
        by (simp add: overlaps_rule4)
    next
      assume "b = a + 12" "iprefix ''new Function'' (drop a s)"
      with overlap_shift[of "''new Function''" a s "''eval''" i] assms 2 show ?thesis
        by (simp add: overlaps_rule4)
    qed
  qed
qed

lemma rule4_error_in_result:
  assumes "(i, j) \<in> set (find_from True rx4 0 (contents view))"
  shows "error_at i j rule4 \<in> set (validate_contents validator view)"
proof -
  from assms have "error_at i j rule4 \<in> set (rule_errors view rule4)"
    by (force simp: rule_errors_compiled[OF compile_rule4])
  then show ?thesis
    by (cases "flag_on view") (simp_all add: validate_flag_on validate_flag_off)
qed

text \<open>
  Claim C10. Rule 4 has no word boundary: wherever the text holds the four letters
  \<open>eval\<close>, in any case and also inside a longer word, the result holds an error with
  rule 4's message over exactly those four characters. No earlier match of the rule
  can overlap them, so the search loop never skips them.
\<close>

theorem eval_substring_reported:
  "map to_lower (take 4 (drop i (contents view))) = ''eval'' \<Longrightarrow>
   \<lparr>region = \<lparr>rbegin = int i, rend = int i + 4\<rparr>,
    message = ''Code creation from strings, e.g. eval / new Function not allowed''\<rparr>
     \<in> set (validate_contents validator view)"
proof -
  assume a: "map to_lower (take 4 (drop i (contents view))) = ''eval''"
  then have "length (take 4 (drop i (contents view))) = 4"
    using length_map[of to_lower "take 4 (drop i (contents view))"] by simp
  then have len4: "4 \<le> length (drop i (contents view))" by simp
  have l4: "length ''eval'' = 4" by simp
  have low: "map to_lower ''eval'' = ''eval''" by code_simp
  have "iprefix ''eval'' (drop i (contents view))"
    unfolding iprefix_def l4 low using a len4 by blast
  then have "error_at i (i + 4) rule4 \<in> set (validate_contents validator view)"
    by (intro rule4_error_in_result eval_found)
  then show ?thesis by (simp add: error_at_def rule_messages)
qed

text \<open>
  Witness of C10: the letters inside \<open>retrieval\<close>.
\<close>

theorem eval_substring_reported_witness:
  "map to_lower (take 4 (drop 9 (contents retrieval_view))) = ''eval'' \<and>
   take 9 (drop 4 (contents retrieval_view)) = ''retrieval'' \<and>
   \<lparr>region = \<lparr>rbegin = int 9, rend = int 9 + 4\<rparr>,
    message = ''Code creation from strings, e.g. eval / new Function not allowed''\<rparr>
     \<in> set (validate_contents validator retrieval_view)"
proof -
  have h: "map to_lower (take 4 (drop 9 (contents retrieval_view))) = ''eval''" by code_simp
  have "take 9 (drop 4 (contents retrieval_view)) = ''retrieval''" by code_simp
  with eval_substring_reported[OF h] h show ?thesis by simp
qed

lemma iprefix_of_take:
  assumes "take n u = w @ v"
  shows "iprefix w u"
proof -
  have "u = (w @ v) @ drop n u"
    using append_take_drop_id[of n u] assms by simp
  then obtain rest where "u = w @ rest" by simp
  then show ?thesis by (simp add: iprefix_def)
qed

lemma new_function_not_eval:
  assumes "iprefix ''new Function'' t"
  shows "\<not> iprefix ''eval'' t"
proof
  assume "iprefix ''eval'' t"
  with assms have "to_lower CHR ''n'' = to_lower CHR ''e''"
    by (cases t) (simp_all add: iprefix_Cons)
  moreover have "to_lower CHR ''n'' \<noteq> to_lower CHR ''e''" by code_simp
  ultimately show False by simp
qed

lemma new_function_found:
  assumes "iprefix ''new Function'' (drop j s)"
  shows "(j, j + 12) \<in> set (find_from True rx4 0 s) \<or>
         (11 \<le> j \<and> iprefix ''new Function'' (drop (j - 11) s) \<and>
          (j - 11, j + 1) \<in> set (find_from True rx4 0 s))"
proof -
  from assms have "12 \<le> length s - j" by (simp add: iprefix_def)
  then have len: "j \<le> length s" by arith
  from assms new_function_not_eval[OF assms]
  have m: "match_here True rx4 (drop j s) = Some 12" by (simp add: match_here_rx4)
  from find_from_complete[OF len m, of 0]
  consider "(j, j + 12) \<in> set (find_from True rx4 0 s)"
    | a b where "(a, b) \<in> set (find_from True rx4 0 s)" "a < j" "j < b"
    by auto
  then show ?thesis
  proof cases
    case 1
    then show ?thesis by simp
  next
    case 2
    from rx4_region_cases[OF 2(1)] show ?thesis
    proof (elim disjE conjE)
      assume "b = a + 4" "iprefix ''eval'' (drop a s)"
      with overlap_shift[of "''eval''" a s "''new Function''" j] assms 2 show ?thesis
        by (simp add: overlaps_rule4)
    next
      assume b: "b = a + 12" and p: "iprefix ''new Function'' (drop a s)"
      with overlap_shift[of "''new Function''" a s "''new Function''" j] assms 2
      have "j - a = 11" by (simp add: overlaps_rule4)
      with 2(2) have a: "a = j - 11" "11 \<le> j" by arith+
      with b have "b = j + 1" by arith
      with a p 2(1) show ?thesis by simp
    qed
  qed
qed

lemma two_members:
  assumes "x \<in> set xs" "y \<in> set xs" "x \<noteq> y"
  shows "2 \<le> length xs"
proof -
  from assms have "{x, y} \<subseteq> set xs" by simp
  then have "card {x, y} \<le> card (set xs)" by (intro card_mono) simp_all
  also have "\<dots> \<le> length xs" by (rule card_length)
  finally show ?thesis using assms(3) by simp
qed

text \<open>
  Claim C6, as amended. A text that holds \<open>eval(x)\<close> at offset \<open>i\<close> and
  \<open>new Function("x")\<close> at offset \<open>j\<close> gives at least two errors with rule 4's
  message: one over \<open>[i, i + 4)\<close>, and one over \<open>[j, j + 12)\<close> or, when the twelve
  characters from \<open>j - 11\<close> on spell \<open>new Function\<close> themselves (in any case), over
  \<open>[j - 11, j + 1)\<close>: the search reports matches that do not overlap, and the last
  letter of one \<open>new Function\<close> can be the first of the next.
\<close>

theorem eval_and_new_function_reported:
  \<open>take 7 (drop i (contents view)) = ''eval(x)'' \<Longrightarrow>
   take 17 (drop j (contents view)) = ''new Function("x")'' \<Longrightarrow>
   CSPRule.message rule4 = ''Code creation from strings, e.g. eval / new Function not allowed'' \<and>
   error_at i (i + 4) rule4 \<in> set (validate_contents validator view) \<and>
   (error_at j (j + 12) rule4 \<in> set (validate_contents validator view) \<or>
    11 \<le> j \<and> map to_lower (take 12 (drop (j - 11) (contents view))) = ''new function'' \<and>
    error_at (j - 11) (j + 1) rule4 \<in> set (validate_contents validator view)) \<and>
   2 \<le> length (filter (\<lambda>e. CSPError.message e = CSPRule.message rule4)
                  (validate_contents validator view))\<close>
proof -
  let ?s = "contents view"
  let ?V = "validate_contents validator view"
  let ?M = "filter (\<lambda>e. CSPError.message e = CSPRule.message rule4) ?V"
  assume e: \<open>take 7 (drop i ?s) = ''eval(x)''\<close>
    and n: \<open>take 17 (drop j ?s) = ''new Function("x")''\<close>
  have "take 7 (drop i ?s) = ''eval'' @ ''(x)''" using e by simp
  then have "iprefix ''eval'' (drop i ?s)" by (rule iprefix_of_take)
  then have E: "error_at i (i + 4) rule4 \<in> set ?V"
    by (intro rule4_error_in_result eval_found)
  have \<open>take 17 (drop j ?s) = ''new Function'' @ ''("x")''\<close> using n by simp
  then have "iprefix ''new Function'' (drop j ?s)" by (rule iprefix_of_take)
  from new_function_found[OF this]
  consider (here) "(j, j + 12) \<in> set (find_from True rx4 0 ?s)"
    | (before) "11 \<le> j" "iprefix ''new Function'' (drop (j - 11) ?s)"
        "(j - 11, j + 1) \<in> set (find_from True rx4 0 ?s)"
    by blast
  then have N: "(error_at j (j + 12) rule4 \<in> set ?V \<or>
      11 \<le> j \<and> map to_lower (take 12 (drop (j - 11) ?s)) = ''new function'' \<and>
      error_at (j - 11) (j + 1) rule4 \<in> set ?V) \<and> 2 \<le> length ?M"
  proof cases
    case here
    then have N1: "error_at j (j + 12) rule4 \<in> set ?V" by (rule rule4_error_in_result)
    have "error_at i (i + 4) rule4 \<noteq> error_at j (j + 12) rule4"
      by (auto simp: error_at_def)
    moreover from E N1 have "error_at i (i + 4) rule4 \<in> set ?M" "error_at j (j + 12) rule4 \<in> set ?M"
      by (simp_all add: error_at_def)
    ultimately have "2 \<le> length ?M" by (rule two_members[rotated 2])
    with N1 show ?thesis by simp
  next
    case before
    from before(3) have N1: "error_at (j - 11) (j + 1) rule4 \<in> set ?V"
      by (rule rule4_error_in_result)
    have low: "map to_lower ''new Function'' = ''new function''" by code_simp
    have l12: "length ''new Function'' = 12" by simp
    from before(2) have fold: "map to_lower (take 12 (drop (j - 11) ?s)) = ''new function''"
      unfolding iprefix_def l12 low by blast
    have "error_at i (i + 4) rule4 \<noteq> error_at (j - 11) (j + 1) rule4"
      using before(1) by (auto simp: error_at_def)
    moreover from E N1
    have "error_at i (i + 4) rule4 \<in> set ?M" "error_at (j - 11) (j + 1) rule4 \<in> set ?M"
      by (simp_all add: error_at_def)
    ultimately have "2 \<le> length ?M" by (rule two_members[rotated 2])
    with N1 fold before(1) show ?thesis by simp
  qed
  with E show ?thesis by (simp add: rule_messages)
qed

lemma two_calls_find:
  "find_from True rx3 0 (contents two_calls_view) = []"
  "find_from True rx4 0 (contents two_calls_view) = [(0, 4), (9, 21)]"
  "find_from True rx5 0 (contents two_calls_view) = []"
  "find_from True rx6 0 (contents two_calls_view) = []"
  by code_simp+

lemma overlap_find:
  "find_from True rx3 0 (contents overlap_view) = []"
  "find_from True rx4 0 (contents overlap_view) = [(0, 12), (29, 33)]"
  "find_from True rx5 0 (contents overlap_view) = []"
  "find_from True rx6 0 (contents overlap_view) = []"
  by code_simp+

lemma example_view_off: "\<not> flag_on (example_view t None)"
  by (simp add: flag_on_def example_view_def settings_get_def)

lemma validate_two_calls:
  "validate_contents validator two_calls_view = [error_at 0 4 rule4, error_at 9 21 rule4]"
proof -
  have "\<not> flag_on two_calls_view" by (simp add: two_calls_view_def example_view_off)
  then show ?thesis
    by (simp add: validate_flag_off rule_errors_compiled compile_rules two_calls_find)
qed

lemma validate_overlap:
  "validate_contents validator overlap_view = [error_at 0 12 rule4, error_at 29 33 rule4]"
proof -
  have "\<not> flag_on overlap_view" by (simp add: overlap_view_def example_view_off)
  then show ?thesis
    by (simp add: validate_flag_off rule_errors_compiled compile_rules overlap_find)
qed

text \<open>
  Witness of C6 as amended: both calls side by side, each reported at its own offset.
\<close>

theorem eval_and_new_function_reported_witness:
  \<open>take 7 (drop 0 (contents two_calls_view)) = ''eval(x)'' \<and>
   take 17 (drop 9 (contents two_calls_view)) = ''new Function("x")'' \<and>
   error_at 0 (0 + 4) rule4 \<in> set (validate_contents validator two_calls_view) \<and>
   error_at 9 (9 + 12) rule4 \<in> set (validate_contents validator two_calls_view) \<and>
   2 \<le> length (filter (\<lambda>e. CSPError.message e = CSPRule.message rule4)
                  (validate_contents validator two_calls_view))\<close>
proof -
  have h1: \<open>take 7 (drop 0 (contents two_calls_view)) = ''eval(x)''\<close> by code_simp
  have h2: \<open>take 17 (drop 9 (contents two_calls_view)) = ''new Function("x")''\<close> by code_simp
  have "error_at 9 (9 + 12) rule4 \<in> set (validate_contents validator two_calls_view)"
    by (simp add: validate_two_calls)
  with eval_and_new_function_reported[OF h1 h2] h1 h2 show ?thesis by blast
qed

text \<open>
  Counterexample to C6 as stated: the text holds \<open>new Function("x")\<close> at offset 11
  and \<open>eval(x)\<close> at offset 29, and the result has no error at offset 11; the match
  over \<open>[0, 12)\<close> has taken the first letter of that occurrence.
\<close>

theorem new_function_at_offset_counterexample:
  \<open>take 7 (drop 29 (contents overlap_view)) = ''eval(x)'' \<and>
   take 17 (drop 11 (contents overlap_view)) = ''new Function("x")'' \<and>
   validate_contents validator overlap_view = [error_at 0 12 rule4, error_at 29 33 rule4] \<and>
   error_at 11 23 rule4 \<notin> set (validate_contents validator overlap_view)\<close>
proof -
  have \<open>take 7 (drop 29 (contents overlap_view)) = ''eval(x)''\<close> by code_simp
  moreover have \<open>take 17 (drop 11 (contents overlap_view)) = ''new Function("x")''\<close> by code_simp
  moreover have "error_at 11 23 rule4 \<notin> set [error_at 0 12 rule4, error_at 29 33 rule4]"
    by (simp add: error_at_def)
  ultimately show ?thesis by (simp add: validate_overlap)
qed

subsection \<open>The gated rules\<close>

lemma script_tag_match:
  "match_here True rx1 (script_tag @ post) = Some 22"
  by (simp add: match_here_def rx1_def script_tag_def seqs_def chars_def opt_def plus_def dot_def
      one_of_def none_of_def quotes_def to_lower_def is_space_def is_newline_def Let_def)

lemma script_tag_reported:
  assumes "contents view = pre @ script_tag @ post"
  shows "\<exists>m \<in> set (find_all view (rule rule1) IGNORECASE).
           (rbegin m = int (length pre) \<and> rend m = int (length pre) + 22) \<or>
           (rbegin m < int (length pre) \<and> int (length pre) < rend m)"
proof -
  have icase: "flag_icase IGNORECASE" by (simp add: flag_icase_def IGNORECASE_def)
  have len: "length pre \<le> length (contents view)" by (simp add: assms)
  have "match_here True rx1 (drop (length pre) (contents view)) = Some 22"
    by (simp add: assms script_tag_match)
  with icase have "match_here (flag_icase IGNORECASE) rx1 (drop (length pre) (contents view)) = Some 22"
    by simp
  from find_all_complete[OF compile_rule1 len this] show ?thesis by simp
qed

lemma ungated_messages:
  assumes "e \<in> set (rule_errors view rule3 @ rule_errors view rule4 @ rule_errors view rule5 @
             rule_errors view rule6)"
  shows "CSPError.message e \<noteq> ''External resources are not allowed'' \<and>
         CSPError.message e \<noteq> ''Inline JavaScript calls are not allowed''"
  using assms by (auto simp: rule_errors_def rule3_def rule4_def rule5_def rule6_def)

text \<open>
  Claim C1. Rules 1, 2, 7 and 8 contribute errors only when the setting
  \<open>csp_chromeapps\<close> equals 1: with the setting absent or 0 the result is that of rules
  3 to 6 alone, which is also the part they contribute when the setting is on, and no
  error carries the message of a gated rule. With the setting on, a text that holds
  \<open><script src="http://x">\<close> anywhere gives an error with rule 1's message at the
  region of a match of rule 1: the 22 characters of the tag up to its closing quote, or
  a match that began earlier and runs over the start of the tag.
\<close>

theorem gated_rules_need_flag:
  \<open>(\<not> flag_on view \<longrightarrow>
      validate_contents validator view =
        rule_errors view rule3 @ rule_errors view rule4 @ rule_errors view rule5 @
        rule_errors view rule6) \<and>
   (flag_on view \<longrightarrow>
      validate_contents validator view =
        rule_errors view rule1 @ rule_errors view rule2 @ rule_errors view rule3 @
        rule_errors view rule4 @ rule_errors view rule5 @ rule_errors view rule6 @
        rule_errors view rule7 @ rule_errors view rule8) \<and>
   (view_settings view ''csp_chromeapps'' = None \<or>
    view_settings view ''csp_chromeapps'' = Some (SInt 0) \<longrightarrow> \<not> flag_on view) \<and>
   (\<not> flag_on view \<longrightarrow>
      (\<forall>e \<in> set (validate_contents validator view).
         CSPError.message e \<noteq> ''External resources are not allowed'' \<and>
         CSPError.message e \<noteq> ''Inline JavaScript calls are not allowed'')) \<and>
   (flag_on view \<and> contents view = pre @ ''<script src="http://x">'' @ post \<longrightarrow>
      (\<exists>e \<in> set (validate_contents validator view).
         CSPError.message e = ''External resources are not allowed'' \<and>
         region e \<in> set (find_all view (rule rule1) IGNORECASE) \<and>
         (rbegin (region e) = int (length pre) \<and> rend (region e) = int (length pre) + 22 \<or>
          rbegin (region e) < int (length pre) \<and> int (length pre) < rend (region e))))\<close>
proof (intro conjI impI)
  assume "\<not> flag_on view"
  then show "validate_contents validator view =
        rule_errors view rule3 @ rule_errors view rule4 @ rule_errors view rule5 @
        rule_errors view rule6"
    by (rule validate_flag_off)
next
  assume "flag_on view"
  then show "validate_contents validator view =
        rule_errors view rule1 @ rule_errors view rule2 @ rule_errors view rule3 @
        rule_errors view rule4 @ rule_errors view rule5 @ rule_errors view rule6 @
        rule_errors view rule7 @ rule_errors view rule8"
    by (rule validate_flag_on)
next
  assume "view_settings view ''csp_chromeapps'' = None \<or>
    view_settings view ''csp_chromeapps'' = Some (SInt 0)"
  then show "\<not> flag_on view"
    by (auto simp: flag_on_def settings_get_def)
next
  assume off: "\<not> flag_on view"
  show "\<forall>e \<in> set (validate_contents validator view).
         CSPError.message e \<noteq> ''External resources are not allowed'' \<and>
         CSPError.message e \<noteq> ''Inline JavaScript calls are not allowed''"
  proof
    fix e assume "e \<in> set (validate_contents validator view)"
    then have "e \<in> set (rule_errors view rule3 @ rule_errors view rule4 @ rule_errors view rule5 @
             rule_errors view rule6)"
      by (simp only: validate_flag_off[OF off])
    then show "CSPError.message e \<noteq> ''External resources are not allowed'' \<and>
         CSPError.message e \<noteq> ''Inline JavaScript calls are not allowed''"
      by (rule ungated_messages)
  qed
next
  assume a: \<open>flag_on view \<and> contents view = pre @ ''<script src="http://x">'' @ post\<close>
  then have "contents view = pre @ script_tag @ post" by (simp add: script_tag_def)
  from script_tag_reported[OF this] obtain m where
    m: "m \<in> set (find_all view (rule rule1) IGNORECASE)"
      "(rbegin m = int (length pre) \<and> rend m = int (length pre) + 22) \<or>
       (rbegin m < int (length pre) \<and> int (length pre) < rend m)"
    by blast
  let ?e = "\<lparr>region = m, message = CSPRule.message rule1\<rparr>"
  from m(1) have "?e \<in> set (rule_errors view rule1)" by (simp add: rule_errors_def)
  with a have "?e \<in> set (validate_contents validator view)" by (simp add: validate_flag_on)
  moreover have "CSPError.message ?e = ''External resources are not allowed''"
    by (simp add: rule_messages)
  moreover have "region ?e \<in> set (find_all view (rule rule1) IGNORECASE)" using m(1) by simp
  moreover have "rbegin (region ?e) = int (length pre) \<and> rend (region ?e) = int (length pre) + 22 \<or>
          rbegin (region ?e) < int (length pre) \<and> int (length pre) < rend (region ?e)"
    using m(2) by simp
  ultimately show "\<exists>e \<in> set (validate_contents validator view).
         CSPError.message e = ''External resources are not allowed'' \<and>
         region e \<in> set (find_all view (rule rule1) IGNORECASE) \<and>
         (rbegin (region e) = int (length pre) \<and> rend (region e) = int (length pre) + 22 \<or>
          rbegin (region e) < int (length pre) \<and> int (length pre) < rend (region e))"
    by blast
qed

lemma tag_text_find:
  "find_from True rx1 0 tag_text = [(3, 25)]" "find_from True rx2 0 tag_text = []"
  "find_from True rx3 0 tag_text = []" "find_from True rx4 0 tag_text = []"
  "find_from True rx5 0 tag_text = []" "find_from True rx6 0 tag_text = []"
  "find_from True rx7 0 tag_text = []" "find_from True rx8 0 tag_text = []"
  by code_simp+

lemma tag_view_flags: "flag_on tag_view_on" "\<not> flag_on tag_view_off"
  by (simp_all add: tag_view_on_def tag_view_off_def flag_on_def example_view_def settings_get_def)

lemma validate_tag_view:
  "validate_contents validator tag_view_on = [error_at 3 25 rule1]"
  "validate_contents validator tag_view_off = []"
proof -
  have "contents tag_view_on = tag_text" "contents tag_view_off = tag_text"
    by (simp_all add: tag_view_on_def tag_view_off_def example_view_def)
  then show "validate_contents validator tag_view_on = [error_at 3 25 rule1]"
    "validate_contents validator tag_view_off = []"
    by (simp_all add: validate_flag_on validate_flag_off tag_view_flags rule_errors_compiled
        compile_rules tag_text_find)
qed

text \<open>
  Witness of C1: the tag behind three other characters, with the setting at 1 and at 0.
\<close>

theorem gated_rules_need_flag_witness:
  \<open>flag_on tag_view_on \<and>
   contents tag_view_on = ''<p>'' @ ''<script src="http://x">'' @ ''</script>'' \<and>
   validate_contents validator tag_view_on =
     [\<lparr>region = \<lparr>rbegin = 3, rend = 25\<rparr>, message = ''External resources are not allowed''\<rparr>] \<and>
   (\<exists>e \<in> set (validate_contents validator tag_view_on).
      CSPError.message e = ''External resources are not allowed'' \<and>
      region e \<in> set (find_all tag_view_on (rule rule1) IGNORECASE) \<and>
      (rbegin (region e) = int (length ''<p>'') \<and> rend (region e) = int (length ''<p>'') + 22 \<or>
       rbegin (region e) < int (length ''<p>'') \<and> int (length ''<p>'') < rend (region e))) \<and>
   view_settings tag_view_off ''csp_chromeapps'' = Some (SInt 0) \<and>
   \<not> flag_on tag_view_off \<and>
   validate_contents validator tag_view_off = []\<close>
proof -
  have h1: "flag_on tag_view_on" by (rule tag_view_flags)
  have h2: \<open>contents tag_view_on = ''<p>'' @ ''<script src="http://x">'' @ ''</script>''\<close>
    by (simp add: tag_view_on_def example_view_def tag_text_def)
  have h3: "view_settings tag_view_off ''csp_chromeapps'' = Some (SInt 0)"
    by (simp add: tag_view_off_def example_view_def)
  from gated_rules_need_flag[of tag_view_on "''<p>''" "''</script>''"] h1 h2
  have e: "\<exists>e \<in> set (validate_contents validator tag_view_on).
      CSPError.message e = ''External resources are not allowed'' \<and>
      region e \<in> set (find_all tag_view_on (rule rule1) IGNORECASE) \<and>
      (rbegin (region e) = int (length ''<p>'') \<and> rend (region e) = int (length ''<p>'') + 22 \<or>
       rbegin (region e) < int (length ''<p>'') \<and> int (length ''<p>'') < rend (region e))"
    by blast
  from gated_rules_need_flag[of tag_view_off] h3 have off: "\<not> flag_on tag_view_off"
    by blast
  have "validate_contents validator tag_view_on =
     [\<lparr>region = \<lparr>rbegin = 3, rend = 25\<rparr>, message = ''External resources are not allowed''\<rparr>]"
    by (simp add: validate_tag_view error_at_def rule_messages)
  with h1 h2 h3 e off validate_tag_view(2) show ?thesis by blast
qed

end
